theory Spec2Isabelle
  imports Main "HOL-Library.Word"
begin

unbundle bit_operations_syntax

section \<open>Row packer of \<^verbatim>\<open>src/yb/docdb/packed_row.cc\<close>\<close>

text \<open>
  A shallow embedding of \<^verbatim>\<open>RowPacker\<close> and of
  \<^verbatim>\<open>ReplaceSchemaVersionInPackedValue\<close>.

  Conventions of the embedding.
  \<^item> A \<^verbatim>\<open>Slice\<close> and the contents of a \<^verbatim>\<open>ValueBuffer\<close> are lists of bytes.
  \<^item> Buffer sizes and indices (\<^verbatim>\<open>size_t\<close>) are natural numbers: they are lengths of
    lists and positions in them. Where the source computes with them in machine
    integers, the model does too: the size check of \<^verbatim>\<open>DoAddValue\<close> is carried out
    in 64-bit words read as signed (\<^verbatim>\<open>ssize_t\<close>), and the
    \<^verbatim>\<open>narrow_cast<uint32_t>\<close> in front of \<^verbatim>\<open>LittleEndian::Store32\<close> in a 32-bit
    word.
  \<^item> The class declaration (\<^verbatim>\<open>packed_row.h\<close>) is not among the sources; the
    members of \<^verbatim>\<open>RowPacker\<close> are typed from their use in this file.
  \<^item> A method that mutates the packer returns the new packer next to its result, also
    when the result is an error: the object outlives a failed call.
  \<^item> \<^verbatim>\<open>RSTATUS_DCHECK\<close> and \<^verbatim>\<open>SCHECK\<close> return the named status when their condition
    fails; \<^verbatim>\<open>VERIFY_RESULT\<close> and \<^verbatim>\<open>RETURN_NOT_OK\<close> pass an error on.
  \<^item> A read of \<^verbatim>\<open>column_packing_data(idx_)\<close> past the last column and a
    \<^verbatim>\<open>Store32\<close> outside the buffer have no defined behaviour in C++; the model
    gives them the outcome \<open>MemoryFault\<close>.
\<close>

type_synonym byte = "8 word"
type_synonym bytes = "byte list"
type_synonym ColumnId = int
type_synonym SchemaVersion = "32 word"

text \<open>
  \<^verbatim>\<open>ssize_t\<close>: a 64-bit word, read with \<open>sint\<close>. \<^verbatim>\<open>make_signed\<close> converts a
  \<^verbatim>\<open>size_t\<close> to it: the value is kept modulo \<open>2 ^ 64\<close>, so that sizes from
  \<open>2 ^ 63\<close> on read as negative numbers.
\<close>

type_synonym ssize_t = "64 word"

definition make_signed :: "nat \<Rightarrow> ssize_t" where
  "make_signed n = word_of_nat n"

datatype error = InvalidArgument | Corruption | NotFound | IllegalState | MemoryFault

subsection \<open>Schema packing (declared in \<^verbatim>\<open>schema_packing.h\<close>)\<close>

text \<open>
  \<^verbatim>\<open>ColumnPackingData\<close>: the fields the packer reads. \<open>varlen\<close> stands for the
  method \<^verbatim>\<open>varlen()\<close>, whose body is not part of this file; it is kept as an
  independent attribute of the descriptor.
\<close>

record ColumnPackingData =
  col_id :: ColumnId
  nullable :: bool
  col_size :: nat
  varlen :: bool

text \<open>
  \<^verbatim>\<open>SchemaPacking\<close>: the ordered descriptors and the skipped-column predicate.
\<close>

record SchemaPacking =
  column_list :: "ColumnPackingData list"
  SkippedColumn :: "ColumnId \<Rightarrow> bool"

definition columns :: "SchemaPacking \<Rightarrow> nat" where
  "columns sp = length (column_list sp)"

definition column_packing_data :: "SchemaPacking \<Rightarrow> nat \<Rightarrow> ColumnPackingData" where
  "column_packing_data sp i = column_list sp ! i"

text \<open>
  Modelled from the spec: \<^verbatim>\<open>SchemaPacking::prefix_len()\<close> is declared outside this
  file; the spec gives it as 4 bytes times the number of variable-length descriptors.
\<close>

definition prefix_len :: "SchemaPacking \<Rightarrow> nat" where
  "prefix_len sp = 4 * length (filter varlen (column_list sp))"

subsection \<open>External codecs\<close>

text \<open>
  The value codec, the control-fields codec, the varint codec, the row-kind marker and
  the block-size flag live in other files. They are parameters of the model: each
  appending function is given by the bytes it appends.
\<close>

record ('cf, 'q) Codecs =
  AppendEncoded :: "'cf \<Rightarrow> bytes"
  FastEncodeUnsignedVarInt :: "64 word \<Rightarrow> bytes"
  FastAppendUnsignedVarInt :: "64 word \<Rightarrow> bytes"
  FastDecodeUnsignedVarInt :: "bytes \<Rightarrow> error + (64 word \<times> bytes)"
  AppendEncodedValue :: "'q \<Rightarrow> bytes"
  EncodedValueSize :: "'q \<Rightarrow> nat"
  IsNull_QLValuePB :: "'q \<Rightarrow> bool"
  kPackedRow :: byte
  FLAGS_db_block_size_bytes :: nat

subsection \<open>The four packable value shapes\<close>

datatype 'q Value =
    QLValuePB 'q
  | ValuePair bytes 'q
  | Slice bytes
  | ValueSlicePair bytes bytes

fun IsNull :: "('cf, 'q) Codecs \<Rightarrow> 'q Value \<Rightarrow> bool" where
  "IsNull C (Slice s) = (s = [])"
| "IsNull C (ValueSlicePair a b) = (a = [] \<and> b = [])"
| "IsNull C (ValuePair a q) = (a = [] \<and> IsNull_QLValuePB C q)"
| "IsNull C (QLValuePB q) = IsNull_QLValuePB C q"

fun PackValue :: "('cf, 'q) Codecs \<Rightarrow> 'q Value \<Rightarrow> bytes \<Rightarrow> bytes" where
  "PackValue C (QLValuePB q) buf = buf @ AppendEncodedValue C q"
| "PackValue C (ValuePair a q) buf = (buf @ a) @ AppendEncodedValue C q"
| "PackValue C (Slice s) buf = buf @ s"
| "PackValue C (ValueSlicePair a b) buf = (buf @ a) @ b"

fun PackedValueSize :: "('cf, 'q) Codecs \<Rightarrow> 'q Value \<Rightarrow> nat" where
  "PackedValueSize C (QLValuePB q) = EncodedValueSize C q"
| "PackedValueSize C (ValuePair a q) = length a + EncodedValueSize C q"
| "PackedValueSize C (Slice s) = length s"
| "PackedValueSize C (ValueSlicePair a b) = length a + length b"

definition PackedSizeLimit :: "('cf, 'q) Codecs \<Rightarrow> nat \<Rightarrow> nat" where
  "PackedSizeLimit C v = (if v \<noteq> 0 then v else FLAGS_db_block_size_bytes C)"

subsection \<open>Little-endian 32-bit slots\<close>

text \<open>
  \<^verbatim>\<open>narrow_cast<uint32_t>(result_.size() - prefix_end_)\<close>: the \<^verbatim>\<open>size_t\<close>
  difference of the buffer size \<open>sz\<close> and the prefix end \<open>pe\<close>, converted to
  \<^verbatim>\<open>uint32_t\<close>. The conversion keeps the low 32 bits (\<^verbatim>\<open>narrow_cast\<close> is a
  \<^verbatim>\<open>static_cast\<close> whose range check exists in debug builds only).
  \<^verbatim>\<open>LittleEndian::Store32\<close> writes the four bytes of the word, lowest first, at
  position \<open>pos\<close> of the buffer; \<open>Load32\<close> is the matching read.
\<close>

definition narrow_cast_u32 :: "nat \<Rightarrow> nat \<Rightarrow> 32 word" where
  "narrow_cast_u32 sz pe = word_of_int (int sz - int pe)"

definition le32 :: "32 word \<Rightarrow> bytes" where
  "le32 w = [ucast w, ucast (drop_bit 8 w), ucast (drop_bit 16 w), ucast (drop_bit 24 w)]"

definition Load32 :: "bytes \<Rightarrow> 32 word" where
  "Load32 bs = (ucast (bs ! 0)) OR push_bit 8 (ucast (bs ! 1))
     OR push_bit 16 (ucast (bs ! 2)) OR push_bit 24 (ucast (bs ! 3))"

definition Store32 :: "bytes \<Rightarrow> nat \<Rightarrow> 32 word \<Rightarrow> bytes" where
  "Store32 buf pos w = take pos buf @ le32 w @ drop (pos + 4) buf"

subsection \<open>The packer\<close>

text \<open>
  The member \<^verbatim>\<open>packed_size_limit_\<close> is initialised from the \<^verbatim>\<open>size_t\<close> result of
  \<^verbatim>\<open>PackedSizeLimit\<close> and compared with a signed sum in \<^verbatim>\<open>DoAddValue\<close>, which
  \<^verbatim>\<open>make_signed\<close> brings to the member's type: the member is an \<^verbatim>\<open>ssize_t\<close>, and
  a limit from \<open>2 ^ 63\<close> on is stored as a negative number.
\<close>

record RowPacker =
  packing :: SchemaPacking
  packed_size_limit :: ssize_t
  idx :: nat
  prefix_end :: nat
  result :: bytes
  varlen_write_pos :: nat

text \<open>
  \<^verbatim>\<open>Init\<close>. \<^verbatim>\<open>GrowByAtLeast\<close> extends the buffer by \<open>prefix_len\<close> bytes whose
  contents the buffer class does not fix; \<open>junk\<close> supplies them (missing ones are
  zero), so that nothing proved below depends on the reserved region being cleared.
\<close>

definition GrowByAtLeast :: "bytes \<Rightarrow> nat \<Rightarrow> bytes \<Rightarrow> bytes" where
  "GrowByAtLeast buf n junk = buf @ take n junk @ replicate (n - length junk) 0"

definition Init :: "('cf, 'q) Codecs \<Rightarrow> SchemaVersion \<Rightarrow> bytes \<Rightarrow> RowPacker \<Rightarrow> RowPacker" where
  "Init C version junk p =
     (let plen = prefix_len (packing p);
          r1 = result p @ [kPackedRow C];
          r2 = r1 @ FastEncodeUnsignedVarInt C (ucast version);
          r3 = GrowByAtLeast r2 plen junk
      in p\<lparr>result := r3, prefix_end := length r3, varlen_write_pos := length r3 - plen\<rparr>)"

definition RowPacker_fields ::
  "('cf, 'q) Codecs \<Rightarrow> SchemaVersion \<Rightarrow> SchemaPacking \<Rightarrow> nat \<Rightarrow> 'cf \<Rightarrow> bytes \<Rightarrow> RowPacker" where
  "RowPacker_fields C version sp limit control_fields junk =
     Init C version junk
       \<lparr>packing = sp, packed_size_limit = make_signed (PackedSizeLimit C limit), idx = 0,
        prefix_end = 0, result = AppendEncoded C control_fields, varlen_write_pos = 0\<rparr>"

definition RowPacker_slice ::
  "('cf, 'q) Codecs \<Rightarrow> SchemaVersion \<Rightarrow> SchemaPacking \<Rightarrow> nat \<Rightarrow> bytes \<Rightarrow> bytes \<Rightarrow> RowPacker" where
  "RowPacker_slice C version sp limit control_fields junk =
     Init C version junk
       \<lparr>packing = sp, packed_size_limit = make_signed (PackedSizeLimit C limit), idx = 0,
        prefix_end = 0, result = control_fields, varlen_write_pos = 0\<rparr>"

definition Finished :: "RowPacker \<Rightarrow> bool" where
  "Finished p = (idx p = columns (packing p))"

definition Restart :: "RowPacker \<Rightarrow> RowPacker" where
  "Restart p =
     p\<lparr>idx := 0,
       varlen_write_pos := prefix_end p - prefix_len (packing p),
       result := take (prefix_end p) (result p)\<rparr>"


text \<open>
  The two statements of the variable-length branch: \<^verbatim>\<open>Store32\<close> of the payload
  length at the write cursor, then the cursor moves by \<^verbatim>\<open>sizeof(uint32_t)\<close>.
\<close>

definition StoreOffset :: "RowPacker \<Rightarrow> RowPacker" where
  "StoreOffset p =
     p\<lparr>result := Store32 (result p) (varlen_write_pos p)
                    (narrow_cast_u32 (length (result p)) (prefix_end p)),
       varlen_write_pos := varlen_write_pos p + 4\<rparr>"

text \<open>
  The size check of the source,
  \<^verbatim>\<open>make_signed(prev_size + PackedValueSize(value)) + tail_size > packed_size_limit_\<close>,
  where \<^verbatim>\<open>prev_size\<close> is the size of the buffer. The sum of the two sizes is a
  \<^verbatim>\<open>size_t\<close>; it is converted to \<^verbatim>\<open>ssize_t\<close>, the tail size is added in 64-bit
  two's complement arithmetic, and the comparison with the limit is signed. (C++ leaves
  an overflow of the signed addition undefined; the model takes the result of the machine
  addition, which wraps.)
\<close>

definition exceeds_limit :: "('cf, 'q) Codecs \<Rightarrow> 'q Value \<Rightarrow> ssize_t \<Rightarrow> RowPacker \<Rightarrow> bool" where
  "exceeds_limit C v tail_size p \<longleftrightarrow>
     sint (make_signed (length (result p) + PackedValueSize C v) + tail_size)
       > sint (packed_size_limit p)"

text \<open>
  One iteration of the loop of \<^verbatim>\<open>DoAddValue\<close>, from \<^verbatim>\<open>++idx_\<close> to the size
  check: the descriptor \<open>column_data\<close> is consumed. \<open>res\<close> is the local
  \<^verbatim>\<open>result\<close> of the source.
\<close>

definition ConsumeColumn ::
  "('cf, 'q) Codecs \<Rightarrow> ColumnId \<Rightarrow> 'q Value \<Rightarrow> ssize_t \<Rightarrow> ColumnPackingData \<Rightarrow> bool \<Rightarrow> RowPacker
     \<Rightarrow> (error + bool) \<times> RowPacker" where
  "ConsumeColumn C column_id v tail_size column_data res p =
     (let p1 = p\<lparr>idx := idx p + 1\<rparr>;
          prev_size = length (result p1)
      in if col_id column_data < column_id \<and> \<not> nullable column_data
         then (Inl InvalidArgument, p1)
         else
           let (res2, p2) =
                 (if col_id column_data < column_id then (res, p1)
                  else if \<not> nullable column_data \<or> \<not> IsNull C v then
                    (if varlen column_data \<and> exceeds_limit C v tail_size p1
                     then (False, p1)
                     else (res, p1\<lparr>result := PackValue C v (result p1)\<rparr>))
                  else (res, p1))
           in if varlen column_data then
                (if varlen_write_pos p2 + 4 \<le> length (result p2)
                 then (Inr res2, StoreOffset p2)
                 else (Inl MemoryFault, p2))
              else if prev_size + col_size column_data = length (result p2)
                then (Inr res2, p2)
                else (Inl Corruption, p2))"

function DoAddValue_loop ::
  "('cf, 'q) Codecs \<Rightarrow> ColumnId \<Rightarrow> 'q Value \<Rightarrow> ssize_t \<Rightarrow> bool \<Rightarrow> RowPacker
     \<Rightarrow> (error + bool) \<times> RowPacker" where
  "DoAddValue_loop C column_id v tail_size res p =
     (if idx p \<ge> columns (packing p) then (Inl MemoryFault, p)
      else
        let column_data = column_packing_data (packing p) (idx p)
        in if col_id column_data > column_id then
             (if SkippedColumn (packing p) column_id then (Inr False, p)
              else (Inl InvalidArgument, p))
           else
             (case ConsumeColumn C column_id v tail_size column_data res p of
                (Inl e, p') \<Rightarrow> (Inl e, p')
              | (Inr res', p') \<Rightarrow>
                  if col_id column_data = column_id then (Inr res', p')
                  else DoAddValue_loop C column_id v tail_size res' p'))"
  by pat_completeness auto
termination
proof (relation "measure (\<lambda>(C, column_id, v, tail_size, res, p). columns (packing p) - idx p)")
  show "wf (measure (\<lambda>(C, column_id, v, tail_size, res, p). columns (packing p) - idx p))"
    by simp
next
  fix C :: "('cf, 'q) Codecs" and column_id v tail_size res p column_data x y res'
  assume a: "\<not> columns (packing p) \<le> idx p"
    and b: "(x :: error + bool, y) =
            ConsumeColumn C column_id v tail_size column_data res p"
  from b [symmetric] have "idx y = idx p + 1 \<and> packing y = packing p"
    by (auto simp: ConsumeColumn_def StoreOffset_def Let_def split: if_splits)
  with a show "((C, column_id, v, tail_size, res', y), (C, column_id, v, tail_size, res, p))
        \<in> measure (\<lambda>(C, column_id, v, tail_size, res, p). columns (packing p) - idx p)"
    by simp
qed

definition DoAddValue ::
  "('cf, 'q) Codecs \<Rightarrow> ColumnId \<Rightarrow> 'q Value \<Rightarrow> ssize_t \<Rightarrow> RowPacker
     \<Rightarrow> (error + bool) \<times> RowPacker" where
  "DoAddValue C column_id v tail_size p =
     (if idx p \<ge> columns (packing p) then
        (if SkippedColumn (packing p) column_id then (Inr False, p)
         else (Inl InvalidArgument, p))
      else DoAddValue_loop C column_id v tail_size True p)"

text \<open>The four public overloads of \<^verbatim>\<open>AddValue\<close>.\<close>

definition AddValue_ql ::
  "('cf, 'q) Codecs \<Rightarrow> ColumnId \<Rightarrow> 'q \<Rightarrow> RowPacker \<Rightarrow> (error + bool) \<times> RowPacker" where
  "AddValue_ql C column_id q p = DoAddValue C column_id (QLValuePB q) 0 p"

definition AddValue_pair ::
  "('cf, 'q) Codecs \<Rightarrow> ColumnId \<Rightarrow> bytes \<Rightarrow> 'q \<Rightarrow> RowPacker \<Rightarrow> (error + bool) \<times> RowPacker" where
  "AddValue_pair C column_id control_fields q p =
     DoAddValue C column_id (ValuePair control_fields q) 0 p"

definition AddValue_slice ::
  "('cf, 'q) Codecs \<Rightarrow> ColumnId \<Rightarrow> bytes \<Rightarrow> ssize_t \<Rightarrow> RowPacker \<Rightarrow> (error + bool) \<times> RowPacker" where
  "AddValue_slice C column_id s tail_size p = DoAddValue C column_id (Slice s) tail_size p"

definition AddValue_slices ::
  "('cf, 'q) Codecs \<Rightarrow> ColumnId \<Rightarrow> bytes \<Rightarrow> bytes \<Rightarrow> ssize_t \<Rightarrow> RowPacker
     \<Rightarrow> (error + bool) \<times> RowPacker" where
  "AddValue_slices C column_id value_prefix value_suffix tail_size p =
     DoAddValue C column_id (ValueSlicePair value_prefix value_suffix) tail_size p"


function Complete :: "('cf, 'q) Codecs \<Rightarrow> RowPacker \<Rightarrow> (error + bytes) \<times> RowPacker" where
  "Complete C p =
     (if idx p < columns (packing p) then
        let packing_data = column_packing_data (packing p) (idx p)
        in if \<not> nullable packing_data then (Inl InvalidArgument, p)
           else
             (case AddValue_slice C (col_id packing_data) [] 0 p of
                (Inl e, p') \<Rightarrow> (Inl e, p')
              | (Inr b, p') \<Rightarrow> Complete C p')
      else if varlen_write_pos p \<noteq> prefix_end p then (Inl InvalidArgument, p)
      else (Inr (result p), p))"
  by pat_completeness auto
termination
proof (relation "measure (\<lambda>(C, p). columns (packing p) - idx p)")
  show "wf (measure (\<lambda>(C, p). columns (packing p) - idx p))"
    by simp
next
  fix C :: "('cf, 'q) Codecs" and p packing_data x y b
  assume a: "idx p < columns (packing p)"
    and d: "packing_data = column_packing_data (packing p) (idx p)"
    and e: "(x :: error + bool, y) = AddValue_slice C (col_id packing_data) [] 0 p"
  obtain x' y' where c:
    "ConsumeColumn C (col_id packing_data) (Slice []) 0 packing_data True p = (x', y')"
    by fastforce
  then have s: "idx y' = idx p + 1 \<and> packing y' = packing p"
    by (auto simp: ConsumeColumn_def StoreOffset_def Let_def split: if_splits)
  from a d c have "DoAddValue C (col_id packing_data) (Slice []) 0 p = (x', y')"
    by (subst DoAddValue_def, subst DoAddValue_loop.simps)
       (auto simp: Let_def split: sum.splits)
  with e have "y = y'"
    by (simp add: AddValue_slice_def)
  with s have "idx y = idx p + 1 \<and> packing y = packing p"
    by simp
  with a show "((C, y), (C, p)) \<in> measure (\<lambda>(C, p). columns (packing p) - idx p)"
    by simp
qed

text \<open>
  The two introspection methods; \<^verbatim>\<open>kInvalidColumnId\<close> is a constant of another
  file and is passed in.
\<close>

definition NextColumnId :: "ColumnId \<Rightarrow> RowPacker \<Rightarrow> ColumnId" where
  "NextColumnId kInvalidColumnId p =
     (if idx p < columns (packing p) then col_id (column_packing_data (packing p) (idx p))
      else kInvalidColumnId)"

definition NextColumnData :: "RowPacker \<Rightarrow> error + ColumnPackingData" where
  "NextColumnData p =
     (if idx p < columns (packing p) then Inr (column_packing_data (packing p) (idx p))
      else Inl IllegalState)"

declare DoAddValue_loop.simps [simp del] Complete.simps [simp del]

subsection \<open>Schema-version remapper\<close>

text \<open>
  \<^verbatim>\<open>ReplaceSchemaVersionInPackedValue\<close> returns its status next to the contents of
  the caller's buffer \<open>out\<close> when the call ends. The map is
  \<^verbatim>\<open>cdc::XClusterSchemaVersionMap\<close>, from schema version to schema version.
\<close>

definition ReplaceSchemaVersionInPackedValue ::
  "('cf, 'q) Codecs \<Rightarrow> bytes \<Rightarrow> 'cf \<Rightarrow> (SchemaVersion \<rightharpoonup> SchemaVersion) \<Rightarrow> bytes
     \<Rightarrow> (error + unit) \<times> bytes" where
  "ReplaceSchemaVersionInPackedValue C v control_fields schema_versions_map out =
     (let out1 = take 0 out;
          out2 = out1 @ AppendEncoded C control_fields;
          out3 = out2 @ [kPackedRow C]
      in case FastDecodeUnsignedVarInt C v of
           Inl e \<Rightarrow> (Inl e, out3)
         | Inr (decoded, value_slice) \<Rightarrow>
             let schema_version = (ucast decoded :: SchemaVersion)
             in (case schema_versions_map schema_version of
                   None \<Rightarrow> (Inl NotFound, out3)
                 | Some mapped_version \<Rightarrow>
                     (Inr (),
                      (out3 @ FastAppendUnsignedVarInt C (ucast mapped_version))
                        @ value_slice)))"


subsection \<open>The packer's invariant\<close>

definition varlen_before :: "SchemaPacking \<Rightarrow> nat \<Rightarrow> nat" where
  "varlen_before sp n = length (filter varlen (take n (column_list sp)))"

text \<open>
  The reserved prefix lies inside the buffer: this part never breaks, whatever a call
  returns.
\<close>

definition packer_frame :: "RowPacker \<Rightarrow> bool" where
  "packer_frame p \<longleftrightarrow>
     prefix_len (packing p) \<le> prefix_end p \<and> prefix_end p \<le> length (result p)"

text \<open>
  The write cursor stands 4 bytes past the table start for each variable-length
  descriptor among the first \<open>idx\<close> ones.
\<close>

definition packer_inv :: "RowPacker \<Rightarrow> bool" where
  "packer_inv p \<longleftrightarrow>
     idx p \<le> columns (packing p) \<and>
     prefix_end p \<le> length (result p) \<and>
     prefix_len (packing p) \<le> prefix_end p \<and>
     varlen_write_pos p =
       prefix_end p - prefix_len (packing p) + 4 * varlen_before (packing p) (idx p)"



text \<open>Where the slot of descriptor \<open>j\<close> lies, if \<open>j\<close> is variable-length.\<close>

definition slot_pos :: "RowPacker \<Rightarrow> nat \<Rightarrow> nat" where
  "slot_pos p j = prefix_end p - prefix_len (packing p) + 4 * varlen_before (packing p) j"


definition offset_slot :: "RowPacker \<Rightarrow> nat \<Rightarrow> bytes" where
  "offset_slot p pos = take 4 (drop pos (result p))"

text \<open>
  What one \<open>AddValue\<close> call that returns a value does to the reserved prefix, from
  packer \<open>p\<close> to packer \<open>p'\<close>: bytes outside the slots between the two cursor
  positions are unchanged, and the slot of every variable-length descriptor consumed
  holds the payload length reached with that descriptor.
\<close>

definition call_effect :: "ColumnId \<Rightarrow> RowPacker \<Rightarrow> RowPacker \<Rightarrow> bool" where
  "call_effect column_id p p' \<longleftrightarrow>
     packing p' = packing p \<and> prefix_end p' = prefix_end p \<and> idx p \<le> idx p' \<and>
     length (result p) \<le> length (result p') \<and>
     varlen_write_pos p \<le> varlen_write_pos p' \<and>
     (\<forall>i < prefix_end p.
        i < varlen_write_pos p \<or> varlen_write_pos p' \<le> i \<longrightarrow>
          result p' ! i = result p ! i) \<and>
     (\<forall>j. idx p \<le> j \<and> j < idx p' \<and> varlen (column_packing_data (packing p) j) \<longrightarrow>
        offset_slot p' (slot_pos p j) =
          le32 (narrow_cast_u32
                  (if col_id (column_packing_data (packing p) j) = column_id
                   then length (result p') else length (result p))
                  (prefix_end p)))"

subsection \<open>A caller's run\<close>

text \<open>
  A sequence of \<open>AddValue\<close> calls, each given by its column id, value and tail size,
  followed by \<open>Complete\<close>. The run stops at the first error; otherwise it yields the
  booleans returned by the calls and the final byte sequence.
\<close>

fun AddValues ::
  "('cf, 'q) Codecs \<Rightarrow> (ColumnId \<times> 'q Value \<times> ssize_t) list \<Rightarrow> RowPacker
     \<Rightarrow> (error + bool list) \<times> RowPacker" where
  "AddValues C [] p = (Inr [], p)"
| "AddValues C ((column_id, v, tail_size) # calls) p =
     (case DoAddValue C column_id v tail_size p of
        (Inl e, p') \<Rightarrow> (Inl e, p')
      | (Inr b, p') \<Rightarrow>
          (case AddValues C calls p' of
             (Inl e, p'') \<Rightarrow> (Inl e, p'')
           | (Inr bs, p'') \<Rightarrow> (Inr (b # bs), p'')))"

definition PackRow ::
  "('cf, 'q) Codecs \<Rightarrow> (ColumnId \<times> 'q Value \<times> ssize_t) list \<Rightarrow> RowPacker
     \<Rightarrow> (error + bool list \<times> bytes) \<times> RowPacker" where
  "PackRow C calls p =
     (case AddValues C calls p of
        (Inl e, p') \<Rightarrow> (Inl e, p')
      | (Inr bs, p') \<Rightarrow>
          (case Complete C p' of
             (Inl e, p'') \<Rightarrow> (Inl e, p'')
           | (Inr s, p'') \<Rightarrow> (Inr (bs, s), p'')))"

text \<open>
  Two packers that agree on everything but the slots of the offset table that have not
  been written yet (the bytes from the write cursor to the prefix end).
\<close>

definition same_row :: "RowPacker \<Rightarrow> RowPacker \<Rightarrow> bool" where
  "same_row p q \<longleftrightarrow>
     packing p = packing q \<and> packed_size_limit p = packed_size_limit q \<and>
     idx p = idx q \<and> prefix_end p = prefix_end q \<and>
     varlen_write_pos p = varlen_write_pos q \<and>
     length (result p) = length (result q) \<and>
     (\<forall>i < length (result p).
        i < varlen_write_pos p \<or> prefix_end p \<le> i \<longrightarrow> result p ! i = result q ! i)"

text \<open>
  Packer \<open>p'\<close> still carries the configuration and the header (control fields,
  marker, version) of packer \<open>p\<close>.
\<close>

definition header_kept :: "RowPacker \<Rightarrow> RowPacker \<Rightarrow> bool" where
  "header_kept p p' \<longleftrightarrow>
     packing p' = packing p \<and> packed_size_limit p' = packed_size_limit p \<and>
     prefix_end p' = prefix_end p \<and>
     (\<forall>i < prefix_end p - prefix_len (packing p). result p' ! i = result p ! i)"

subsection \<open>A concrete instance for running the model\<close>

text \<open>
  An instance of the external codecs on which the definitions evaluate: control fields
  and structured values are given by their encoded bytes, a varint is one byte, the
  row-kind marker is the character \<open>z\<close>.
\<close>

definition demo_codecs :: "(bytes, bytes) Codecs" where
  "demo_codecs =
     \<lparr>AppendEncoded = (\<lambda>cf. cf),
      FastEncodeUnsignedVarInt = (\<lambda>w. [ucast w]),
      FastAppendUnsignedVarInt = (\<lambda>w. [ucast w]),
      FastDecodeUnsignedVarInt =
        (\<lambda>bs. case bs of [] \<Rightarrow> Inl Corruption | b # r \<Rightarrow> Inr (ucast b, r)),
      AppendEncodedValue = (\<lambda>q. q),
      EncodedValueSize = length,
      IsNull_QLValuePB = (\<lambda>q. q = []),
      kPackedRow = 122,
      FLAGS_db_block_size_bytes = 32768\<rparr>"

text \<open>
  The schema of the spec's example: column 1 fixed (4 bytes) and not null, column 2
  variable-length and nullable, column 3 variable-length and not null. Column 7 is a
  skipped column.
\<close>

definition demo_packing :: SchemaPacking where
  "demo_packing =
     \<lparr>column_list =
        [\<lparr>col_id = 1, nullable = False, col_size = 4, varlen = False\<rparr>,
         \<lparr>col_id = 2, nullable = True, col_size = 0, varlen = True\<rparr>,
         \<lparr>col_id = 3, nullable = False, col_size = 0, varlen = True\<rparr>],
      SkippedColumn = (\<lambda>c. c = 7)\<rparr>"

definition demo_packer :: RowPacker where
  "demo_packer =
     RowPacker_slice demo_codecs 1 demo_packing 0 [] [170, 170, 170, 170, 170, 170, 170, 170]"


text \<open>The packer after column 1 received four bytes, and after column 3 received \<open>abc\<close>.\<close>

definition demo_packer_1 :: RowPacker where
  "demo_packer_1 =
     \<lparr>packing = demo_packing, packed_size_limit = 32768, idx = 1, prefix_end = 10,
      result = [122, 1, 170, 170, 170, 170, 170, 170, 170, 170, 1, 2, 3, 4],
      varlen_write_pos = 2\<rparr>"

definition demo_packer_3 :: RowPacker where
  "demo_packer_3 =
     \<lparr>packing = demo_packing, packed_size_limit = 32768, idx = 3, prefix_end = 10,
      result = [122, 1, 4, 0, 0, 0, 7, 0, 0, 0, 1, 2, 3, 4, 97, 98, 99],
      varlen_write_pos = 10\<rparr>"




text \<open>The same packer with a size limit of \<open>2 ^ 40\<close> bytes, after column 1.\<close>

definition demo_big_packer_1 :: RowPacker where
  "demo_big_packer_1 =
     \<lparr>packing = demo_packing, packed_size_limit = 1099511627776, idx = 1, prefix_end = 10,
      result = [122, 1, 170, 170, 170, 170, 170, 170, 170, 170, 1, 2, 3, 4],
      varlen_write_pos = 2\<rparr>"

text \<open>
  The packer after a failed call: from \<open>demo_packer_1\<close>, a value for the unknown
  column 5 consumed column 2 and then column 3, which is not nullable; column 3 got no
  slot.
\<close>

definition demo_packer_gap :: RowPacker where
  "demo_packer_gap =
     \<lparr>packing = demo_packing, packed_size_limit = 32768, idx = 3, prefix_end = 10,
      result = [122, 1, 4, 0, 0, 0, 170, 170, 170, 170, 1, 2, 3, 4],
      varlen_write_pos = 6\<rparr>"




section \<open>Properties\<close>

subsection \<open>Auxiliary facts\<close>

lemma varlen_before_Suc:
  "n < columns sp \<Longrightarrow>
   varlen_before sp (Suc n) =
     varlen_before sp n + (if varlen (column_packing_data sp n) then 1 else 0)"
  by (simp add: varlen_before_def columns_def column_packing_data_def take_Suc_conv_app_nth)

lemma varlen_before_le: "4 * varlen_before sp n \<le> prefix_len sp"
proof -
  have "length (filter varlen (column_list sp)) =
        length (filter varlen (take n (column_list sp)))
          + length (filter varlen (drop n (column_list sp)))"
    by (metis append_take_drop_id filter_append length_append)
  then show ?thesis by (simp add: varlen_before_def prefix_len_def)
qed

lemma varlen_before_all: "columns sp \<le> n \<Longrightarrow> 4 * varlen_before sp n = prefix_len sp"
  by (simp add: varlen_before_def prefix_len_def columns_def)

lemma length_le32 [simp]: "length (le32 w) = 4"
  by (simp add: le32_def)

lemma length_Store32: "pos + 4 \<le> length buf \<Longrightarrow> length (Store32 buf pos w) = length buf"
  by (simp add: Store32_def)

lemma PackValue_append: "PackValue C v buf = buf @ PackValue C v []"
  by (cases v) simp_all

lemma length_PackValue: "length buf \<le> length (PackValue C v buf)"
  by (subst PackValue_append) simp

lemma slot_in_range:
  assumes "packer_inv p" "idx p < columns (packing p)"
    "varlen (column_packing_data (packing p) (idx p))"
  shows "varlen_write_pos p + 4 \<le> prefix_end p"
proof -
  have "4 * varlen_before (packing p) (Suc (idx p)) \<le> prefix_len (packing p)"
    by (rule varlen_before_le)
  with assms show ?thesis
    by (simp add: packer_inv_def varlen_before_Suc)
qed

lemma ConsumeColumn_inv:
  assumes "packer_inv p" "idx p < columns (packing p)"
    and "ConsumeColumn C column_id v tail_size (column_packing_data (packing p) (idx p)) res p
          = (Inr r, p')"
  shows "packer_inv p'"
proof -
  let ?cd = "column_packing_data (packing p) (idx p)"
  show ?thesis
  proof (cases "varlen ?cd")
    case True
    from slot_in_range [OF assms(1,2) True] have s: "varlen_write_pos p + 4 \<le> prefix_end p" .
    have l: "length (result p) \<le> length (PackValue C v (result p))"
      by (rule length_PackValue)
    from assms True s l show ?thesis
      by (auto simp: ConsumeColumn_def StoreOffset_def Let_def packer_inv_def
                 varlen_before_Suc length_Store32
               split: if_splits prod.splits)
  next
    case False
    have l: "length (result p) \<le> length (PackValue C v (result p))"
      by (rule length_PackValue)
    from False assms l show ?thesis
      by (auto simp: ConsumeColumn_def Let_def packer_inv_def varlen_before_Suc
               split: if_splits prod.splits)
  qed
qed

lemma DoAddValue_loop_inv:
  "packer_inv p \<Longrightarrow> DoAddValue_loop C column_id v tail_size res p = (Inr r, p') \<Longrightarrow> packer_inv p'"
proof (induction C column_id v tail_size res p rule: DoAddValue_loop.induct)
  case (1 C column_id v tail_size res p)
  show ?case
  proof (cases "columns (packing p) \<le> idx p")
    case True
    with "1.prems" show ?thesis by (subst (asm) DoAddValue_loop.simps) simp
  next
    case False
    let ?cd = "column_packing_data (packing p) (idx p)"
    show ?thesis
    proof (cases "column_id < col_id ?cd")
      case True
      with False "1.prems" show ?thesis
        by (subst (asm) DoAddValue_loop.simps) (auto simp: Let_def split: if_splits)
    next
      case nlt: False
      obtain x y where c: "ConsumeColumn C column_id v tail_size ?cd res p = (x, y)"
        by fastforce
      show ?thesis
      proof (cases x)
        case (Inl e)
        with False nlt c "1.prems" show ?thesis
          by (subst (asm) DoAddValue_loop.simps) (simp add: Let_def)
      next
        case (Inr res')
        with c "1.prems"(1) False have iy: "packer_inv y"
          using ConsumeColumn_inv by (metis not_le)
        show ?thesis
        proof (cases "col_id ?cd = column_id")
          case True
          with False nlt c Inr "1.prems" iy show ?thesis
            by (subst (asm) DoAddValue_loop.simps) (simp add: Let_def)
        next
          case ne: False
          from False nlt c Inr ne "1.prems"(2)
          have "DoAddValue_loop C column_id v tail_size res' y = (Inr r, p')"
            by (subst (asm) DoAddValue_loop.simps) (simp add: Let_def)
          with "1.IH" [OF False refl nlt c [symmetric] Inr ne iy] show ?thesis by simp
        qed
      qed
    qed
  qed
qed


lemma ConsumeColumn_frame:
  assumes "packer_frame p"
    and "ConsumeColumn C column_id v tail_size cd res p = (r, p')"
  shows "packer_frame p'"
proof -
  have l: "length (result p) \<le> length (PackValue C v (result p))"
    by (rule length_PackValue)
  from assms l show ?thesis
    by (auto simp: ConsumeColumn_def StoreOffset_def Let_def packer_frame_def length_Store32
             split: if_splits prod.splits)
qed

lemma DoAddValue_loop_frame:
  "packer_frame p \<Longrightarrow> DoAddValue_loop C column_id v tail_size res p = (r, p')
     \<Longrightarrow> packer_frame p'"
proof (induction C column_id v tail_size res p rule: DoAddValue_loop.induct)
  case (1 C column_id v tail_size res p)
  let ?cd = "column_packing_data (packing p) (idx p)"
  obtain x y where c: "ConsumeColumn C column_id v tail_size ?cd res p = (x, y)"
    by fastforce
  with "1.prems"(1) have fy: "packer_frame y"
    using ConsumeColumn_frame by blast
  show ?case
  proof (cases "\<not> columns (packing p) \<le> idx p \<and> \<not> column_id < col_id ?cd
                 \<and> (\<exists>res'. x = Inr res') \<and> col_id ?cd \<noteq> column_id")
    case True
    then obtain res' where x: "x = Inr res'" by blast
    from True x c "1.prems"(2)
    have "DoAddValue_loop C column_id v tail_size res' y = (r, p')"
      by (subst (asm) DoAddValue_loop.simps) (simp add: Let_def)
    with "1.IH" [OF _ refl _ c [symmetric] x _ fy] True show ?thesis by simp
  next
    case False
    with c "1.prems" fy show ?thesis
      by (subst (asm) DoAddValue_loop.simps)
         (auto simp: Let_def split: if_splits sum.splits)
  qed
qed

lemma DoAddValue_frame:
  "packer_frame p \<Longrightarrow> DoAddValue C column_id v tail_size p = (r, p') \<Longrightarrow> packer_frame p'"
  by (auto simp: DoAddValue_def split: if_splits dest: DoAddValue_loop_frame)

lemma DoAddValue_inv:
  "packer_inv p \<Longrightarrow> DoAddValue C column_id v tail_size p = (Inr r, p') \<Longrightarrow> packer_inv p'"
  by (auto simp: DoAddValue_def split: if_splits dest: DoAddValue_loop_inv)

lemma Init_inv:
  "idx p = 0 \<Longrightarrow> packer_inv (Init C version junk p)"
  by (simp add: Init_def Let_def packer_inv_def GrowByAtLeast_def varlen_before_def)

lemma Restart_inv: "packer_frame p \<Longrightarrow> packer_inv (Restart p)"
  by (simp add: Restart_def packer_inv_def packer_frame_def varlen_before_def)

lemma inv_frame: "packer_inv p \<Longrightarrow> packer_frame p"
  by (simp add: packer_inv_def packer_frame_def)

lemma inv_Finished:
  "packer_inv p \<Longrightarrow> Finished p \<Longrightarrow> varlen_write_pos p = prefix_end p"
  using varlen_before_all [of "packing p" "idx p"]
  by (simp add: packer_inv_def Finished_def)

lemma Complete_Finished:
  "packer_inv p \<Longrightarrow> Finished p \<Longrightarrow> Complete C p = (Inr (result p), p)"
  using inv_Finished [of p] by (subst Complete.simps) (simp add: Finished_def)

lemma Load32_le32: "Load32 (le32 w) = w"
proof (rule bit_word_eqI)
  fix n
  assume "n < LENGTH(32)"
  then have "n < 32" by simp
  then consider "n < 8" | "8 \<le> n" "n < 16" | "16 \<le> n" "n < 24" | "24 \<le> n" "n < 32"
    by linarith
  then show "bit (Load32 (le32 w)) n = bit w n"
    by cases (auto simp: Load32_def le32_def bit_simps)
qed

lemma unat_narrow_cast:
  "pe \<le> sz \<Longrightarrow> unat (narrow_cast_u32 sz pe) = (sz - pe) mod 2 ^ 32"
  by (simp add: narrow_cast_u32_def unat_of_nat flip: of_nat_diff)

lemma Store32_slot: "pos \<le> length buf \<Longrightarrow> take 4 (drop pos (Store32 buf pos w)) = le32 w"
  by (simp add: Store32_def)


lemma StoreOffset_fields [simp]:
  "idx (StoreOffset p) = idx p"
  "packing (StoreOffset p) = packing p"
  "prefix_end (StoreOffset p) = prefix_end p"
  "packed_size_limit (StoreOffset p) = packed_size_limit p"
  "varlen_write_pos (StoreOffset p) = varlen_write_pos p + 4"
  by (simp_all add: StoreOffset_def)

lemma loop_unfold:
  assumes "idx p < columns (packing p)"
    and "col_id (column_packing_data (packing p) (idx p)) \<le> column_id"
  shows "DoAddValue_loop C column_id v tail_size res p =
     (case ConsumeColumn C column_id v tail_size
             (column_packing_data (packing p) (idx p)) res p of
        (Inl e, p') \<Rightarrow> (Inl e, p')
      | (Inr res', p') \<Rightarrow>
          if col_id (column_packing_data (packing p) (idx p)) = column_id then (Inr res', p')
          else DoAddValue_loop C column_id v tail_size res' p')"
  using assms by (subst DoAddValue_loop.simps) (simp add: Let_def)

lemma loop_gap_not_nullable:
  assumes "idx p < columns (packing p)"
    and "cd = column_packing_data (packing p) (idx p)"
    and "col_id cd < column_id" "\<not> nullable cd"
  shows "DoAddValue_loop C column_id v tail_size res p =
           (Inl InvalidArgument, p\<lparr>idx := idx p + 1\<rparr>)"
  using assms by (simp add: loop_unfold ConsumeColumn_def Let_def)

lemma loop_gap_nullable:
  assumes "packer_inv p" "idx p < columns (packing p)"
    and "cd = column_packing_data (packing p) (idx p)"
    and "col_id cd < column_id" "nullable cd"
  shows "DoAddValue_loop C column_id v tail_size res p =
     (if varlen cd then
        DoAddValue_loop C column_id v tail_size res (StoreOffset (p\<lparr>idx := idx p + 1\<rparr>))
      else if col_size cd = 0 then
        DoAddValue_loop C column_id v tail_size res (p\<lparr>idx := idx p + 1\<rparr>)
      else (Inl Corruption, p\<lparr>idx := idx p + 1\<rparr>))"
proof (cases "varlen cd")
  case True
  with assms have "varlen_write_pos p + 4 \<le> prefix_end p"
    using slot_in_range by blast
  moreover from assms(1) have "prefix_end p \<le> length (result p)"
    by (simp add: packer_inv_def)
  ultimately show ?thesis
    using assms True by (simp add: loop_unfold ConsumeColumn_def Let_def)
next
  case False
  with assms show ?thesis by (simp add: loop_unfold ConsumeColumn_def Let_def)
qed

lemma loop_match_varlen:
  assumes "packer_inv p" "idx p < columns (packing p)"
    and "cd = column_packing_data (packing p) (idx p)"
    and "col_id cd = column_id" "varlen cd"
  shows "DoAddValue_loop C column_id v tail_size res p =
     (if nullable cd \<and> IsNull C v then (Inr res, StoreOffset (p\<lparr>idx := idx p + 1\<rparr>))
      else if exceeds_limit C v tail_size p
        then (Inr False, StoreOffset (p\<lparr>idx := idx p + 1\<rparr>))
      else (Inr res,
            StoreOffset (p\<lparr>idx := idx p + 1, result := PackValue C v (result p)\<rparr>)))"
proof -
  from assms have "varlen_write_pos p + 4 \<le> prefix_end p"
    using slot_in_range by blast
  moreover from assms(1) have "prefix_end p \<le> length (result p)"
    by (simp add: packer_inv_def)
  moreover have "length (result p) \<le> length (PackValue C v (result p))"
    by (rule length_PackValue)
  ultimately show ?thesis
    using assms by (simp add: loop_unfold ConsumeColumn_def Let_def exceeds_limit_def)
qed

lemma loop_match_fixed:
  assumes "idx p < columns (packing p)"
    and "cd = column_packing_data (packing p) (idx p)"
    and "col_id cd = column_id" "\<not> varlen cd"
  shows "DoAddValue_loop C column_id v tail_size res p =
     (let buf = (if nullable cd \<and> IsNull C v then result p else PackValue C v (result p))
      in if length (result p) + col_size cd = length buf
         then (Inr res, p\<lparr>idx := idx p + 1, result := buf\<rparr>)
         else (Inl Corruption, p\<lparr>idx := idx p + 1, result := buf\<rparr>))"
  using assms by (simp add: loop_unfold ConsumeColumn_def Let_def)

lemma DoAddValue_loop_eq:
  "idx p < columns (packing p) \<Longrightarrow>
   DoAddValue C column_id v tail_size p = DoAddValue_loop C column_id v tail_size True p"
  by (simp add: DoAddValue_def)

lemma Complete_step:
  assumes "packer_inv p" "idx p < columns (packing p)"
    and "cd = column_packing_data (packing p) (idx p)" "nullable cd"
  shows "Complete C p =
     (if varlen cd then Complete C (StoreOffset (p\<lparr>idx := idx p + 1\<rparr>))
      else if col_size cd = 0 then Complete C (p\<lparr>idx := idx p + 1\<rparr>)
      else (Inl Corruption, p\<lparr>idx := idx p + 1\<rparr>))"
proof (cases "varlen cd")
  case True
  from loop_match_varlen [OF assms(1,2,3) refl True, of C "Slice []" 0 True] assms True
  show ?thesis
    by (subst Complete.simps) (simp add: AddValue_slice_def DoAddValue_loop_eq Let_def)
next
  case False
  from loop_match_fixed [OF assms(2,3) refl False, of C "Slice []" 0 True] assms False
  show ?thesis
    by (subst Complete.simps) (simp add: AddValue_slice_def DoAddValue_loop_eq Let_def)
qed

lemma Complete_not_nullable:
  assumes "idx p < columns (packing p)"
    and "\<not> nullable (column_packing_data (packing p) (idx p))"
  shows "Complete C p = (Inl InvalidArgument, p)"
  using assms by (subst Complete.simps) (simp add: Let_def)

lemma Complete_Inr:
  "Complete C p = (Inr s, p') \<Longrightarrow>
     varlen_write_pos p' = prefix_end p' \<and> s = result p' \<and> \<not> idx p' < columns (packing p')"
proof (induction C p rule: Complete.induct)
  case (1 C p)
  show ?case
  proof (cases "idx p < columns (packing p)")
    case False
    with "1.prems" show ?thesis
      by (subst (asm) Complete.simps) (auto split: if_splits)
  next
    case True
    let ?cd = "column_packing_data (packing p) (idx p)"
    obtain x y where a: "AddValue_slice C (col_id ?cd) [] 0 p = (x, y)"
      by fastforce
    from True "1.prems" have n: "nullable ?cd"
      by (subst (asm) Complete.simps) (auto simp: Let_def split: if_splits)
    from True n a "1.prems" obtain b where x: "x = Inr b"
      by (subst (asm) Complete.simps) (cases x; simp add: Let_def)
    from True n a x "1.prems" have "Complete C y = (Inr s, p')"
      by (subst (asm) Complete.simps) (simp add: Let_def)
    with "1.IH" [OF True refl _ a [symmetric] x] n show ?thesis by simp
  qed
qed

lemma inv_gap_varlen:
  assumes "packer_inv p" "idx p < columns (packing p)"
    and "varlen (column_packing_data (packing p) (idx p))"
  shows "packer_inv (StoreOffset (p\<lparr>idx := idx p + 1\<rparr>))"
proof -
  from assms have "varlen_write_pos p + 4 \<le> prefix_end p"
    using slot_in_range by blast
  with assms show ?thesis
    by (simp add: packer_inv_def StoreOffset_def length_Store32 varlen_before_Suc)
qed

lemma inv_gap_fixed:
  assumes "packer_inv p" "idx p < columns (packing p)"
    and "\<not> varlen (column_packing_data (packing p) (idx p))"
  shows "packer_inv (p\<lparr>idx := idx p + 1\<rparr>)"
  using assms by (simp add: packer_inv_def varlen_before_Suc)










lemma Store32_nth_before: "i < pos \<Longrightarrow> pos \<le> length buf \<Longrightarrow> Store32 buf pos w ! i = buf ! i"
  by (simp add: Store32_def nth_append)

lemma Store32_nth_after:
  assumes "pos + 4 \<le> i" "pos + 4 \<le> length buf"
  shows "Store32 buf pos w ! i = buf ! i"
proof -
  have l: "length (take pos buf @ le32 w) = pos + 4"
    using assms(2) by simp
  have "Store32 buf pos w = (take pos buf @ le32 w) @ drop (pos + 4) buf"
    by (simp add: Store32_def)
  then have "Store32 buf pos w ! i = drop (pos + 4) buf ! (i - (pos + 4))"
    using assms(1) l by (metis not_less nth_append)
  also have "\<dots> = buf ! i"
    using assms by simp
  finally show ?thesis .
qed

lemma only_current: "idx p \<le> j \<Longrightarrow> j < Suc (idx p) \<Longrightarrow> j = idx p"
  by simp

lemma inv_slot_pos: "packer_inv p \<Longrightarrow> slot_pos p (idx p) = varlen_write_pos p"
  by (simp add: packer_inv_def slot_pos_def)

lemma call_effect_refl: "call_effect column_id p p"
  by (auto simp: call_effect_def)

lemma call_effect_match_varlen:
  assumes "packer_inv p" "idx p < columns (packing p)"
    and "varlen (column_packing_data (packing p) (idx p))"
    and "col_id (column_packing_data (packing p) (idx p)) = column_id"
  shows "call_effect column_id p
           (StoreOffset (p\<lparr>idx := idx p + 1, result := result p @ extra\<rparr>))"
proof -
  let ?buf = "result p @ extra"
  let ?p' = "StoreOffset (p\<lparr>idx := idx p + 1, result := ?buf\<rparr>)"
  from assms have s: "varlen_write_pos p + 4 \<le> prefix_end p"
    using slot_in_range by blast
  from assms(1) have e: "prefix_end p \<le> length (result p)"
    by (simp add: packer_inv_def)
  have sp: "slot_pos p (idx p) = varlen_write_pos p"
    using assms(1) by (rule inv_slot_pos)
  have l: "length (result ?p') = length ?buf"
    using s e by (simp add: StoreOffset_def length_Store32)
  have bytes: "result ?p' ! i = result p ! i"
    if "i < prefix_end p" "i < varlen_write_pos p \<or> varlen_write_pos ?p' \<le> i" for i
  proof -
    from that s e have "result ?p' ! i = ?buf ! i"
      by (auto simp: StoreOffset_def Store32_nth_before Store32_nth_after)
    with that e show ?thesis by (simp add: nth_append)
  qed
  have slot: "offset_slot ?p' (slot_pos p j) =
          le32 (narrow_cast_u32
                  (if col_id (column_packing_data (packing p) j) = column_id
                   then length (result ?p') else length (result p))
                  (prefix_end p))"
    if "idx p \<le> j" "j < idx ?p'" for j
  proof -
    from that have "j = idx p" by simp
    with sp assms(4) s e show ?thesis
      by (simp add: offset_slot_def StoreOffset_def Store32_slot length_Store32)
  qed
  from l bytes slot show ?thesis
    unfolding call_effect_def by auto
qed

lemma call_effect_match_fixed:
  assumes "\<not> varlen (column_packing_data (packing p) (idx p))"
    and "prefix_end p \<le> length (result p)"
  shows "call_effect column_id p (p\<lparr>idx := idx p + 1, result := result p @ extra\<rparr>)"
  using assms by (auto simp: call_effect_def nth_append dest: only_current)

lemma offset_slot_cong:
  assumes "pos + 4 \<le> length xs" "pos + 4 \<le> length ys"
    and "\<And>i. i < pos + 4 \<Longrightarrow> xs ! i = ys ! i"
  shows "take 4 (drop pos xs) = take 4 (drop pos ys)"
  using assms by (intro nth_equalityI) auto

lemma call_effect_gap_varlen:
  assumes "packer_inv p" "idx p < columns (packing p)"
    and "varlen (column_packing_data (packing p) (idx p))"
    and "col_id (column_packing_data (packing p) (idx p)) \<noteq> column_id"
    and "call_effect column_id (StoreOffset (p\<lparr>idx := idx p + 1\<rparr>)) p'"
  shows "call_effect column_id p p'"
proof -
  let ?q = "StoreOffset (p\<lparr>idx := idx p + 1\<rparr>)"
  from assms have s: "varlen_write_pos p + 4 \<le> prefix_end p"
    using slot_in_range by blast
  from assms(1) have e: "prefix_end p \<le> length (result p)"
    by (simp add: packer_inv_def)
  have sp: "slot_pos p (idx p) = varlen_write_pos p"
    using assms(1) by (rule inv_slot_pos)
  have lq: "length (result ?q) = length (result p)"
    using s e by (simp add: StoreOffset_def length_Store32)
  have spq: "slot_pos ?q j = slot_pos p j" for j
    by (simp add: slot_pos_def)
  have qb: "result ?q ! i = result p ! i" if "i < varlen_write_pos p" for i
    using that s e by (simp add: StoreOffset_def Store32_nth_before)
  have qa: "result ?q ! i = result p ! i" if "varlen_write_pos p + 4 \<le> i" for i
    using that s e by (simp add: StoreOffset_def Store32_nth_after)
  have qs: "offset_slot ?q (varlen_write_pos p) =
              le32 (narrow_cast_u32 (length (result p)) (prefix_end p))"
    using s e by (simp add: StoreOffset_def offset_slot_def Store32_slot)
  note E = assms(5) [unfolded call_effect_def, simplified]
  from E have E1: "packing p' = packing p" and E2: "prefix_end p' = prefix_end p"
    and E3: "Suc (idx p) \<le> idx p'" and E4: "length (result ?q) \<le> length (result p')"
    and E5: "varlen_write_pos p + 4 \<le> varlen_write_pos p'"
    by simp_all
  from E have E6: "result p' ! i = result ?q ! i"
    if "i < prefix_end p" "i < varlen_write_pos p + 4 \<or> varlen_write_pos p' \<le> i" for i
    using that by auto
  from E have E7: "offset_slot p' (slot_pos p j) =
          le32 (narrow_cast_u32
                  (if col_id (column_packing_data (packing p) j) = column_id
                   then length (result p') else length (result p))
                  (prefix_end p))"
    if "Suc (idx p) \<le> j" "j < idx p'" "varlen (column_packing_data (packing p) j)" for j
    using that spq lq by auto
  have bytes: "result p' ! i = result p ! i"
    if "i < prefix_end p" "i < varlen_write_pos p \<or> varlen_write_pos p' \<le> i" for i
  proof -
    from that E5 have "result p' ! i = result ?q ! i" by (intro E6) auto
    moreover from that E5 have "result ?q ! i = result p ! i"
      using qb qa by auto
    ultimately show ?thesis by simp
  qed
  have slot0: "offset_slot p' (varlen_write_pos p) =
                 le32 (narrow_cast_u32 (length (result p)) (prefix_end p))"
  proof -
    have "take 4 (drop (varlen_write_pos p) (result p')) =
          take 4 (drop (varlen_write_pos p) (result ?q))"
    proof (rule offset_slot_cong)
      show "varlen_write_pos p + 4 \<le> length (result p')" using s e lq E4 by simp
      show "varlen_write_pos p + 4 \<le> length (result ?q)" using s e lq by simp
      show "result p' ! i = result ?q ! i" if "i < varlen_write_pos p + 4" for i
        using that s by (intro E6) auto
    qed
    with qs show ?thesis by (simp add: offset_slot_def)
  qed
  have slots: "offset_slot p' (slot_pos p j) =
          le32 (narrow_cast_u32
                  (if col_id (column_packing_data (packing p) j) = column_id
                   then length (result p') else length (result p))
                  (prefix_end p))"
    if "idx p \<le> j" "j < idx p'" "varlen (column_packing_data (packing p) j)" for j
  proof (cases "j = idx p")
    case True
    with slot0 sp assms(4) show ?thesis by simp
  next
    case False
    with that have "Suc (idx p) \<le> j" by simp
    with that show ?thesis by (intro E7)
  qed
  from E1 E2 E3 E4 E5 lq bytes slots show ?thesis
    unfolding call_effect_def by auto
qed

lemma call_effect_gap_fixed:
  assumes "\<not> varlen (column_packing_data (packing p) (idx p))"
    and "call_effect column_id (p\<lparr>idx := idx p + 1\<rparr>) p'"
  shows "call_effect column_id p p'"
proof -
  have j: "idx p \<le> j \<and> varlen (column_packing_data (packing p) j) \<Longrightarrow> Suc (idx p) \<le> j" for j
    using assms(1) by (cases "j = idx p") auto
  from assms(2) j show ?thesis
    unfolding call_effect_def slot_pos_def by auto
qed


lemma loop_call_effect:
  "packer_inv p \<Longrightarrow> DoAddValue_loop C column_id v tail_size res p = (Inr r, p')
     \<Longrightarrow> call_effect column_id p p'"
proof (induction "columns (packing p) - idx p" arbitrary: p res)
  case 0
  then have "columns (packing p) \<le> idx p" by simp
  with "0.prems"(2) show ?case
    by (subst (asm) DoAddValue_loop.simps) simp
next
  case (Suc n)
  let ?cd = "column_packing_data (packing p) (idx p)"
  from Suc.hyps(2) have c: "idx p < columns (packing p)" by simp
  from Suc.prems(1) have e: "prefix_end p \<le> length (result p)"
    by (simp add: packer_inv_def)
  have a: "PackValue C v (result p) = result p @ PackValue C v []"
    by (rule PackValue_append)
  consider (gt) "column_id < col_id ?cd" | (eq) "col_id ?cd = column_id"
    | (lt) "col_id ?cd < column_id"
    by linarith
  then show ?case
  proof cases
    case gt
    with c Suc.prems(2) have "p' = p"
      by (subst (asm) DoAddValue_loop.simps) (auto simp: Let_def split: if_splits)
    then show ?thesis by (simp add: call_effect_refl)
  next
    case eq
    show ?thesis
    proof (cases "varlen ?cd")
      case True
      note m = call_effect_match_varlen [OF Suc.prems(1) c True eq]
      from loop_match_varlen [OF Suc.prems(1) c refl eq True, of C v tail_size res]
        Suc.prems(2)
      have "p' = StoreOffset (p\<lparr>idx := idx p + 1, result := result p @ []\<rparr>) \<or>
            p' = StoreOffset (p\<lparr>idx := idx p + 1, result := result p @ PackValue C v []\<rparr>)"
        by (auto simp: a split: if_splits)
      with m [of "[]"] m [of "PackValue C v []"] show ?thesis by blast
    next
      case False
      note m = call_effect_match_fixed [OF False e, of column_id]
      from loop_match_fixed [OF c refl eq False, of C v tail_size res] Suc.prems(2)
      have "p' = p\<lparr>idx := idx p + 1, result := result p @ []\<rparr> \<or>
            p' = p\<lparr>idx := idx p + 1, result := result p @ PackValue C v []\<rparr>"
        by (auto simp: a Let_def split: if_splits)
      with m [of "[]"] m [of "PackValue C v []"] show ?thesis by blast
    qed
  next
    case lt
    have n: "nullable ?cd"
    proof (rule ccontr)
      assume "\<not> nullable ?cd"
      from loop_gap_not_nullable [OF c refl lt this, of C v tail_size res] Suc.prems(2)
      show False by simp
    qed
    note step = loop_gap_nullable [OF Suc.prems(1) c refl lt n, of C v tail_size res]
    show ?thesis
    proof (cases "varlen ?cd")
      case True
      let ?q = "StoreOffset (p\<lparr>idx := idx p + 1\<rparr>)"
      have iq: "packer_inv ?q" using Suc.prems(1) c True by (rule inv_gap_varlen)
      have nq: "n = columns (packing ?q) - idx ?q" using Suc.hyps(2) by simp
      from step True Suc.prems(2)
      have "DoAddValue_loop C column_id v tail_size res ?q = (Inr r, p')" by simp
      from Suc.hyps(1) [OF nq iq this] have "call_effect column_id ?q p'" .
      with Suc.prems(1) c True lt show ?thesis
        using call_effect_gap_varlen [of p column_id p'] by simp
    next
      case False
      let ?q = "p\<lparr>idx := idx p + 1\<rparr>"
      have iq: "packer_inv ?q" using Suc.prems(1) c False by (rule inv_gap_fixed)
      have nq: "n = columns (packing ?q) - idx ?q" using Suc.hyps(2) by simp
      from step False Suc.prems(2)
      have "DoAddValue_loop C column_id v tail_size res ?q = (Inr r, p')"
        by (simp split: if_splits)
      from Suc.hyps(1) [OF nq iq this] have "call_effect column_id ?q p'" .
      with False show ?thesis
        using call_effect_gap_fixed [of p column_id p'] by simp
    qed
  qed
qed

lemma DoAddValue_call_effect:
  assumes "packer_inv p" "DoAddValue C column_id v tail_size p = (Inr r, p')"
  shows "call_effect column_id p p'"
proof (cases "idx p < columns (packing p)")
  case True
  with assms show ?thesis
    using loop_call_effect [of p C column_id v tail_size True r p']
    by (simp add: DoAddValue_loop_eq)
next
  case False
  with assms(2) have "p' = p"
    by (auto simp: DoAddValue_def split: if_splits)
  then show ?thesis by (simp add: call_effect_refl)
qed

lemma varlen_before_mono: "a \<le> b \<Longrightarrow> varlen_before sp a \<le> varlen_before sp b"
proof -
  assume "a \<le> b"
  then obtain d where b: "b = a + d" using le_Suc_ex by blast
  have "take (a + d) (column_list sp) =
          take a (column_list sp) @ take d (drop a (column_list sp))"
    by (rule take_add)
  then show ?thesis
    by (simp add: varlen_before_def b)
qed

lemma slot_pos_mono: "a \<le> b \<Longrightarrow> slot_pos p a \<le> slot_pos p b"
  by (simp add: slot_pos_def varlen_before_mono)

lemma slot_pos_Suc:
  "j < columns (packing p) \<Longrightarrow> varlen (column_packing_data (packing p) j) \<Longrightarrow>
   slot_pos p (Suc j) = slot_pos p j + 4"
  by (simp add: slot_pos_def varlen_before_Suc)

lemma ConsumeColumn_Inr:
  assumes "ConsumeColumn C column_id v tail_size cd res p = (Inr res', q)"
  shows "\<exists>extra.
           (varlen cd \<longrightarrow> varlen_write_pos p + 4 \<le> length (result p @ extra) \<and>
              q = StoreOffset (p\<lparr>idx := idx p + 1, result := result p @ extra\<rparr>)) \<and>
           (\<not> varlen cd \<longrightarrow> q = p\<lparr>idx := idx p + 1, result := result p @ extra\<rparr>)"
proof -
  have a: "PackValue C v (result p) = result p @ PackValue C v []"
    by (rule PackValue_append)
  have "q = (if varlen cd then StoreOffset (p\<lparr>idx := idx p + 1, result := result p @ []\<rparr>)
             else p\<lparr>idx := idx p + 1, result := result p @ []\<rparr>) \<and>
          (varlen cd \<longrightarrow> varlen_write_pos p + 4 \<le> length (result p @ [])) \<or>
        q = (if varlen cd
             then StoreOffset (p\<lparr>idx := idx p + 1, result := result p @ PackValue C v []\<rparr>)
             else p\<lparr>idx := idx p + 1, result := result p @ PackValue C v []\<rparr>) \<and>
          (varlen cd \<longrightarrow> varlen_write_pos p + 4 \<le> length (result p @ PackValue C v []))"
    using assms
    by (auto simp: ConsumeColumn_def Let_def a split: if_splits)
  then show ?thesis by (metis (full_types))
qed

lemma step_offset_slot:
  assumes "packer_inv p" "idx p < columns (packing p)"
    and "cd = column_packing_data (packing p) (idx p)"
    and "ConsumeColumn C column_id v tail_size cd res p = (Inr res', q)"
  shows "(varlen cd \<longrightarrow>
            varlen_write_pos q = varlen_write_pos p + 4 \<and>
            offset_slot q (varlen_write_pos p) =
              le32 (narrow_cast_u32 (length (result q)) (prefix_end p)) \<and>
            unat (Load32 (offset_slot q (varlen_write_pos p))) =
              (length (result q) - prefix_end p) mod 2 ^ 32 \<and>
            (\<forall>i < prefix_end p.
               i < varlen_write_pos p \<or> varlen_write_pos p + 4 \<le> i \<longrightarrow>
                 result q ! i = result p ! i)) \<and>
         (\<not> varlen cd \<longrightarrow>
            varlen_write_pos q = varlen_write_pos p \<and>
            (\<forall>i < prefix_end p. result q ! i = result p ! i))"
proof -
  from assms(1) have e: "prefix_end p \<le> length (result p)"
    by (simp add: packer_inv_def)
  from assms(4) obtain extra where
    x: "varlen cd \<longrightarrow> varlen_write_pos p + 4 \<le> length (result p @ extra) \<and>
              q = StoreOffset (p\<lparr>idx := idx p + 1, result := result p @ extra\<rparr>)"
       "\<not> varlen cd \<longrightarrow> q = p\<lparr>idx := idx p + 1, result := result p @ extra\<rparr>"
    using ConsumeColumn_Inr by blast
  show ?thesis
  proof (cases "varlen cd")
    case True
    with assms have s: "varlen_write_pos p + 4 \<le> prefix_end p"
      using slot_in_range by blast
    from True x have q: "q = StoreOffset (p\<lparr>idx := idx p + 1, result := result p @ extra\<rparr>)"
      by simp
    have 1: "varlen_write_pos q = varlen_write_pos p + 4"
      by (simp add: q)
    have 2: "offset_slot q (varlen_write_pos p) =
              le32 (narrow_cast_u32 (length (result q)) (prefix_end p))"
      using s e by (simp add: q offset_slot_def StoreOffset_def Store32_slot length_Store32)
    have "prefix_end p \<le> length (result q)"
      using s e by (simp add: q StoreOffset_def length_Store32)
    then have 3: "unat (Load32 (offset_slot q (varlen_write_pos p))) =
              (length (result q) - prefix_end p) mod 2 ^ 32"
      by (simp add: 2 Load32_le32 unat_narrow_cast)
    have 4: "\<forall>i < prefix_end p.
             i < varlen_write_pos p \<or> varlen_write_pos p + 4 \<le> i \<longrightarrow>
               result q ! i = result p ! i"
      using s e
      by (auto simp: q StoreOffset_def Store32_nth_before Store32_nth_after nth_append)
    from True 1 2 3 4 show ?thesis by blast
  next
    case False
    with x have q: "q = p\<lparr>idx := idx p + 1, result := result p @ extra\<rparr>" by simp
    have 1: "varlen_write_pos q = varlen_write_pos p" by (simp add: q)
    have 2: "\<forall>i < prefix_end p. result q ! i = result p ! i"
      using e by (simp add: q nth_append)
    from False 1 2 show ?thesis by blast
  qed
qed

lemma call_offset_slots:
  assumes "packer_inv p" and d: "DoAddValue C column_id v tail_size p = (Inr r, p')"
  shows "varlen_write_pos p' =
         varlen_write_pos p
           + 4 * (varlen_before (packing p) (idx p') - varlen_before (packing p) (idx p)) \<and>
       (\<forall>i < prefix_end p.
          i < varlen_write_pos p \<or> varlen_write_pos p' \<le> i \<longrightarrow>
            result p' ! i = result p ! i) \<and>
       (\<forall>j. idx p \<le> j \<and> j < idx p' \<and> varlen (column_packing_data (packing p) j) \<longrightarrow>
          varlen_write_pos p \<le> slot_pos p j \<and> slot_pos p j + 4 \<le> varlen_write_pos p' \<and>
          offset_slot p' (slot_pos p j) =
            le32 (narrow_cast_u32
                    (if col_id (column_packing_data (packing p) j) = column_id
                     then length (result p') else length (result p))
                    (prefix_end p)) \<and>
          unat (Load32 (offset_slot p' (slot_pos p j))) =
            ((if col_id (column_packing_data (packing p) j) = column_id
              then length (result p') else length (result p)) - prefix_end p) mod 2 ^ 32)"
proof -
  from assms have E: "call_effect column_id p p'"
    by (rule DoAddValue_call_effect)
  from assms have ip': "packer_inv p'"
    by (rule DoAddValue_inv)
  from E have pk: "packing p' = packing p" and pe: "prefix_end p' = prefix_end p"
    and ix: "idx p \<le> idx p'" and ln: "length (result p) \<le> length (result p')"
    by (simp_all add: call_effect_def)
  from assms(1) have e: "prefix_end p \<le> length (result p)"
    by (simp add: packer_inv_def)
  have sp: "slot_pos p (idx p) = varlen_write_pos p"
    using assms(1) by (rule inv_slot_pos)
  have sp': "slot_pos p (idx p') = varlen_write_pos p'"
    using inv_slot_pos [OF ip'] pk pe by (simp add: slot_pos_def)
  have 1: "varlen_write_pos p' =
      varlen_write_pos p
        + 4 * (varlen_before (packing p) (idx p') - varlen_before (packing p) (idx p))"
    using sp sp' varlen_before_mono [OF ix, of "packing p"]
    by (simp add: slot_pos_def)
  have 2: "\<forall>i < prefix_end p.
       i < varlen_write_pos p \<or> varlen_write_pos p' \<le> i \<longrightarrow> result p' ! i = result p ! i"
    using E by (simp add: call_effect_def)
  have 3: "varlen_write_pos p \<le> slot_pos p j \<and> slot_pos p j + 4 \<le> varlen_write_pos p' \<and>
       offset_slot p' (slot_pos p j) =
         le32 (narrow_cast_u32
                 (if col_id (column_packing_data (packing p) j) = column_id
                  then length (result p') else length (result p))
                 (prefix_end p)) \<and>
       unat (Load32 (offset_slot p' (slot_pos p j))) =
         ((if col_id (column_packing_data (packing p) j) = column_id
           then length (result p') else length (result p)) - prefix_end p) mod 2 ^ 32"
    if h: "idx p \<le> j \<and> j < idx p' \<and> varlen (column_packing_data (packing p) j)" for j
  proof -
    from h ip' pk have jc: "j < columns (packing p)"
      by (simp add: packer_inv_def)
    have a: "varlen_write_pos p \<le> slot_pos p j"
      using slot_pos_mono [of "idx p" j p] h sp by simp
    have b: "slot_pos p j + 4 \<le> varlen_write_pos p'"
      using slot_pos_mono [of "Suc j" "idx p'" p] slot_pos_Suc [OF jc] h sp' by simp
    from E h have c: "offset_slot p' (slot_pos p j) =
         le32 (narrow_cast_u32
                 (if col_id (column_packing_data (packing p) j) = column_id
                  then length (result p') else length (result p))
                 (prefix_end p))"
      by (simp add: call_effect_def)
    have d: "unat (Load32 (offset_slot p' (slot_pos p j))) =
         ((if col_id (column_packing_data (packing p) j) = column_id
           then length (result p') else length (result p)) - prefix_end p) mod 2 ^ 32"
      using e ln by (simp add: c Load32_le32 unat_narrow_cast)
    from a b c d show ?thesis by blast
  qed
  from 1 2 3 show ?thesis by blast
qed

lemma Store32_nth_slot:
  assumes "pos \<le> i" "i < pos + 4" "pos + 4 \<le> length buf"
  shows "Store32 buf pos w ! i = le32 w ! (i - pos)"
proof -
  have "Store32 buf pos w = take pos buf @ (le32 w @ drop (pos + 4) buf)"
    by (simp add: Store32_def)
  moreover have "length (take pos buf) = pos" using assms(3) by simp
  ultimately have "Store32 buf pos w ! i = (le32 w @ drop (pos + 4) buf) ! (i - pos)"
    using assms(1) by (metis not_less nth_append)
  also have "\<dots> = le32 w ! (i - pos)"
  proof -
    from assms(1,2) have "i - pos < length (le32 w)" by simp
    then show ?thesis by (simp only: nth_append if_True)
  qed
  finally show ?thesis .
qed

lemma same_row_inv: "same_row p q \<Longrightarrow> packer_inv p \<Longrightarrow> packer_inv q"
  by (simp add: same_row_def packer_inv_def)

lemma same_row_next:
  "same_row p q \<Longrightarrow> same_row (p\<lparr>idx := idx p + 1\<rparr>) (q\<lparr>idx := idx q + 1\<rparr>)"
  by (simp add: same_row_def)

lemma same_row_append:
  assumes "same_row p q"
  shows "same_row (p\<lparr>idx := idx p + 1, result := result p @ extra\<rparr>)
                  (q\<lparr>idx := idx q + 1, result := result q @ extra\<rparr>)"
  using assms by (auto simp: same_row_def nth_append)

lemma same_row_StoreOffset:
  assumes "same_row p q" "varlen_write_pos p + 4 \<le> length (result p)"
  shows "same_row (StoreOffset p) (StoreOffset q)"
proof -
  let ?w = "narrow_cast_u32 (length (result p)) (prefix_end p)"
  from assms(1) have f: "packing p = packing q" "packed_size_limit p = packed_size_limit q"
    "idx p = idx q" "prefix_end p = prefix_end q" "varlen_write_pos p = varlen_write_pos q"
    "length (result p) = length (result q)"
    by (simp_all add: same_row_def)
  from assms(1) have n: "result p ! i = result q ! i"
    if "i < length (result p)" "i < varlen_write_pos p \<or> prefix_end p \<le> i" for i
    using that by (auto simp: same_row_def)
  have rp: "result (StoreOffset p) = Store32 (result p) (varlen_write_pos p) ?w"
    by (simp add: StoreOffset_def)
  have rq: "result (StoreOffset q) = Store32 (result q) (varlen_write_pos p) ?w"
    using f by (simp add: StoreOffset_def)
  have l: "length (result (StoreOffset p)) = length (result p)"
    "length (result (StoreOffset q)) = length (result p)"
    using assms(2) f by (simp_all add: StoreOffset_def length_Store32)
  have b: "result (StoreOffset p) ! i = result (StoreOffset q) ! i"
    if i: "i < length (result p)"
       "i < varlen_write_pos p + 4 \<or> prefix_end p \<le> i" for i
  proof -
    consider "i < varlen_write_pos p"
      | "varlen_write_pos p \<le> i" "i < varlen_write_pos p + 4"
      | "varlen_write_pos p + 4 \<le> i"
      by linarith
    then show ?thesis
    proof cases
      case 1
      with assms(2) f n [of i] i show ?thesis
        by (simp add: rp rq Store32_nth_before)
    next
      case 2
      with assms(2) f show ?thesis
        by (simp add: rp rq Store32_nth_slot)
    next
      case 3
      with i have "prefix_end p \<le> i" by simp
      with 3 assms(2) f n [of i] i show ?thesis
        by (simp add: rp rq Store32_nth_after)
    qed
  qed
  from f l b show ?thesis
    by (simp add: same_row_def)
qed

lemma same_row_exceeds:
  "same_row p q \<Longrightarrow> exceeds_limit C v tail_size p = exceeds_limit C v tail_size q"
  by (simp add: same_row_def exceeds_limit_def)

lemma loop_same_row:
  "packer_inv p \<Longrightarrow> same_row p q \<Longrightarrow>
   DoAddValue_loop C column_id v tail_size res p = (Inr r, p') \<Longrightarrow>
   \<exists>q'. DoAddValue_loop C column_id v tail_size res q = (Inr r, q') \<and> same_row p' q'"
proof (induction "columns (packing p) - idx p" arbitrary: p q res)
  case 0
  then have "columns (packing p) \<le> idx p" by simp
  with "0.prems"(3) show ?case
    by (subst (asm) DoAddValue_loop.simps) simp
next
  case (Suc n)
  let ?cd = "column_packing_data (packing p) (idx p)"
  note sr = Suc.prems(2)
  from sr have f: "packing q = packing p" "idx q = idx p"
    "varlen_write_pos q = varlen_write_pos p" "prefix_end q = prefix_end p"
    "length (result q) = length (result p)"
    by (simp_all add: same_row_def)
  from Suc.hyps(2) have c: "idx p < columns (packing p)" by simp
  with f have cq: "idx q < columns (packing q)" by simp
  have iq: "packer_inv q" using sr Suc.prems(1) by (rule same_row_inv)
  have cdq: "?cd = column_packing_data (packing q) (idx q)" using f by simp
  from Suc.prems(1) have e: "prefix_end p \<le> length (result p)"
    by (simp add: packer_inv_def)
  have a: "PackValue C v buf = buf @ PackValue C v []" for buf
    by (rule PackValue_append)
  consider (gt) "column_id < col_id ?cd" | (eq) "col_id ?cd = column_id"
    | (lt) "col_id ?cd < column_id"
    by linarith
  then show ?case
  proof cases
    case gt
    with c Suc.prems(3) have 1: "p' = p" "r = False" "SkippedColumn (packing p) column_id"
      by (subst (asm) DoAddValue_loop.simps; auto simp: Let_def split: if_splits)+
    from gt cq f 1 have "DoAddValue_loop C column_id v tail_size res q = (Inr False, q)"
      by (subst DoAddValue_loop.simps) (simp add: Let_def)
    with 1 sr show ?thesis by simp
  next
    case eq
    show ?thesis
    proof (cases "varlen ?cd")
      case True
      with Suc.prems(1) c have s: "varlen_write_pos p + 4 \<le> prefix_end p"
        using slot_in_range by blast
      note lp = loop_match_varlen [OF Suc.prems(1) c refl eq True, of C v tail_size res]
      from eq True f have eq': "col_id (column_packing_data (packing q) (idx q)) = column_id"
        and v': "varlen (column_packing_data (packing q) (idx q))" by simp_all
      note lq = loop_match_varlen [OF iq cq refl eq' v', of C v tail_size res]
      have x: "exceeds_limit C v tail_size q = exceeds_limit C v tail_size p"
        using sr by (simp add: same_row_exceeds)
      have s1: "same_row (StoreOffset (p\<lparr>idx := idx p + 1\<rparr>))
                         (StoreOffset (q\<lparr>idx := idx q + 1\<rparr>))"
        using same_row_next [OF sr] s e by (intro same_row_StoreOffset) simp_all
      have s2: "same_row
          (StoreOffset (p\<lparr>idx := idx p + 1, result := PackValue C v (result p)\<rparr>))
          (StoreOffset (q\<lparr>idx := idx q + 1, result := PackValue C v (result q)\<rparr>))"
        using same_row_append [OF sr, of "PackValue C v []"] s e
        by (subst a, subst (2) a, intro same_row_StoreOffset) simp_all
      from lp lq x f s1 s2 Suc.prems(3) show ?thesis
        by (auto split: if_splits)
    next
      case False
      note lp = loop_match_fixed [OF c refl eq False, of C v tail_size res]
      from eq False f have eq': "col_id (column_packing_data (packing q) (idx q)) = column_id"
        and v': "\<not> varlen (column_packing_data (packing q) (idx q))" by simp_all
      note lq = loop_match_fixed [OF cq refl eq' v', of C v tail_size res]
      have s1: "same_row (p\<lparr>idx := idx p + 1, result := result p\<rparr>)
                         (q\<lparr>idx := idx q + 1, result := result q\<rparr>)"
        using same_row_next [OF sr] by simp
      have s2: "same_row (p\<lparr>idx := idx p + 1, result := PackValue C v (result p)\<rparr>)
                         (q\<lparr>idx := idx q + 1, result := PackValue C v (result q)\<rparr>)"
        using same_row_append [OF sr, of "PackValue C v []"]
        by (subst a, subst (2) a)
      have l: "length (PackValue C v (result q)) = length (PackValue C v (result p))"
        using f by (subst a, subst (2) a) simp
      from lp lq f s1 s2 l Suc.prems(3) show ?thesis
        by (auto simp: Let_def split: if_splits)
    qed
  next
    case lt
    have n: "nullable ?cd"
    proof (rule ccontr)
      assume "\<not> nullable ?cd"
      from loop_gap_not_nullable [OF c refl lt this, of C v tail_size res] Suc.prems(3)
      show False by simp
    qed
    note stp = loop_gap_nullable [OF Suc.prems(1) c refl lt n, of C v tail_size res]
    from lt n f have lt': "col_id (column_packing_data (packing q) (idx q)) < column_id"
      and n': "nullable (column_packing_data (packing q) (idx q))" by simp_all
    note stq = loop_gap_nullable [OF iq cq refl lt' n', of C v tail_size res]
    show ?thesis
    proof (cases "varlen ?cd")
      case True
      with Suc.prems(1) c have s: "varlen_write_pos p + 4 \<le> prefix_end p"
        using slot_in_range by blast
      let ?p1 = "StoreOffset (p\<lparr>idx := idx p + 1\<rparr>)"
      let ?q1 = "StoreOffset (q\<lparr>idx := idx q + 1\<rparr>)"
      have i1: "packer_inv ?p1" using Suc.prems(1) c True by (rule inv_gap_varlen)
      have n1: "n = columns (packing ?p1) - idx ?p1" using Suc.hyps(2) by simp
      have s1: "same_row ?p1 ?q1"
        using same_row_next [OF sr] s e by (intro same_row_StoreOffset) simp_all
      from stp True Suc.prems(3)
      have "DoAddValue_loop C column_id v tail_size res ?p1 = (Inr r, p')" by simp
      from Suc.hyps(1) [OF n1 i1 s1 this] stq True f show ?thesis by simp
    next
      case False
      let ?p1 = "p\<lparr>idx := idx p + 1\<rparr>"
      let ?q1 = "q\<lparr>idx := idx q + 1\<rparr>"
      have i1: "packer_inv ?p1" using Suc.prems(1) c False by (rule inv_gap_fixed)
      have n1: "n = columns (packing ?p1) - idx ?p1" using Suc.hyps(2) by simp
      have s1: "same_row ?p1 ?q1" using sr by (rule same_row_next)
      from stp False Suc.prems(3)
      have z: "col_size ?cd = 0"
        and "DoAddValue_loop C column_id v tail_size res ?p1 = (Inr r, p')"
        by (simp_all split: if_splits)
      from Suc.hyps(1) [OF n1 i1 s1 this(2)] stq False z f show ?thesis by simp
    qed
  qed
qed


lemma DoAddValue_same_row:
  assumes "packer_inv p" "same_row p q"
    and "DoAddValue C column_id v tail_size p = (Inr r, p')"
  shows "\<exists>q'. DoAddValue C column_id v tail_size q = (Inr r, q') \<and> same_row p' q'"
proof (cases "idx p < columns (packing p)")
  case True
  with assms(2) have "idx q < columns (packing q)" by (simp add: same_row_def)
  with True assms show ?thesis
    using loop_same_row [of p q C column_id v tail_size True r p']
    by (simp add: DoAddValue_loop_eq)
next
  case False
  with assms(2) have "\<not> idx q < columns (packing q)" by (simp add: same_row_def)
  with False assms(2,3) show ?thesis
    by (auto simp: DoAddValue_def same_row_def split: if_splits)
qed

lemma AddValues_same_row:
  "packer_inv p \<Longrightarrow> same_row p q \<Longrightarrow> AddValues C calls p = (Inr bs, p') \<Longrightarrow>
   \<exists>q'. AddValues C calls q = (Inr bs, q') \<and> same_row p' q' \<and> packer_inv p'"
proof (induction calls arbitrary: p q bs p')
  case Nil
  then show ?case by simp
next
  case (Cons call calls)
  obtain column_id v tail_size where call: "call = (column_id, v, tail_size)"
    by (cases call) auto
  obtain x y where d: "DoAddValue C column_id v tail_size p = (x, y)"
    by fastforce
  with Cons.prems(3) call obtain b where x: "x = Inr b"
    by (cases x) auto
  obtain x' y' where r: "AddValues C calls y = (x', y')"
    by fastforce
  with Cons.prems(3) call d x obtain bs' where x': "x' = Inr bs'"
    by (cases x') auto
  from Cons.prems(3) call d x r x' have e: "bs = b # bs'" "p' = y'"
    by simp_all
  from Cons.prems(1) d x have iy: "packer_inv y"
    using DoAddValue_inv by blast
  from DoAddValue_same_row [OF Cons.prems(1,2)] d x
  obtain z where z: "DoAddValue C column_id v tail_size q = (Inr b, z)" "same_row y z"
    by blast
  from Cons.IH [OF iy z(2)] r x'
  obtain q' where q': "AddValues C calls z = (Inr bs', q')" "same_row y' q'" "packer_inv y'"
    by blast
  from call z q' e show ?case by simp
qed

lemma same_row_finished:
  assumes "same_row p q" "varlen_write_pos p = prefix_end p"
  shows "result p = result q"
proof (rule nth_equalityI)
  show "length (result p) = length (result q)"
    using assms(1) by (simp add: same_row_def)
  show "result p ! i = result q ! i" if "i < length (result p)" for i
    using that assms by (auto simp: same_row_def)
qed

lemma Complete_same_row:
  "packer_inv p \<Longrightarrow> same_row p q \<Longrightarrow> Complete C p = (Inr s, p') \<Longrightarrow>
   \<exists>q'. Complete C q = (Inr s, q')"
proof (induction "columns (packing p) - idx p" arbitrary: p q)
  case 0
  then have f: "\<not> idx p < columns (packing p)" by simp
  with "0.prems"(2) have fq: "\<not> idx q < columns (packing q)" by (simp add: same_row_def)
  from f "0.prems"(3) have v: "varlen_write_pos p = prefix_end p" and s: "s = result p"
    by (subst (asm) Complete.simps; simp split: if_splits)+
  from "0.prems"(2) v have "result p = result q" by (rule same_row_finished)
  moreover from "0.prems"(2) v have "varlen_write_pos q = prefix_end q"
    by (simp add: same_row_def)
  ultimately show ?case using fq s
    by (subst Complete.simps) simp
next
  case (Suc n)
  let ?cd = "column_packing_data (packing p) (idx p)"
  note sr = Suc.prems(2)
  from sr have f: "packing q = packing p" "idx q = idx p"
    by (simp_all add: same_row_def)
  from Suc.hyps(2) have c: "idx p < columns (packing p)" by simp
  with f have cq: "idx q < columns (packing q)" by simp
  have iq: "packer_inv q" using sr Suc.prems(1) by (rule same_row_inv)
  from Suc.prems(1) have e: "prefix_end p \<le> length (result p)"
    by (simp add: packer_inv_def)
  have n: "nullable ?cd"
  proof (rule ccontr)
    assume "\<not> nullable ?cd"
    from Complete_not_nullable [OF c this, of C] Suc.prems(3) show False by simp
  qed
  with f have n': "nullable (column_packing_data (packing q) (idx q))" by simp
  note stp = Complete_step [OF Suc.prems(1) c refl n, of C]
  note stq = Complete_step [OF iq cq refl n', of C]
  show ?case
  proof (cases "varlen ?cd")
    case True
    with Suc.prems(1) c have s: "varlen_write_pos p + 4 \<le> prefix_end p"
      using slot_in_range by blast
    let ?p1 = "StoreOffset (p\<lparr>idx := idx p + 1\<rparr>)"
    let ?q1 = "StoreOffset (q\<lparr>idx := idx q + 1\<rparr>)"
    have i1: "packer_inv ?p1" using Suc.prems(1) c True by (rule inv_gap_varlen)
    have n1: "n = columns (packing ?p1) - idx ?p1" using Suc.hyps(2) by simp
    have s1: "same_row ?p1 ?q1"
      using same_row_next [OF sr] s e by (intro same_row_StoreOffset) simp_all
    from stp True Suc.prems(3) have "Complete C ?p1 = (Inr s, p')" by simp
    from Suc.hyps(1) [OF n1 i1 s1 this] stq True f show ?thesis by simp
  next
    case False
    let ?p1 = "p\<lparr>idx := idx p + 1\<rparr>"
    let ?q1 = "q\<lparr>idx := idx q + 1\<rparr>"
    have i1: "packer_inv ?p1" using Suc.prems(1) c False by (rule inv_gap_fixed)
    have n1: "n = columns (packing ?p1) - idx ?p1" using Suc.hyps(2) by simp
    have s1: "same_row ?p1 ?q1" using sr by (rule same_row_next)
    from stp False Suc.prems(3)
    have z: "col_size ?cd = 0" and "Complete C ?p1 = (Inr s, p')"
      by (simp_all split: if_splits)
    from Suc.hyps(1) [OF n1 i1 s1 this(2)] stq False z f show ?thesis by simp
  qed
qed

lemma PackRow_same_row:
  assumes "packer_inv p" "same_row p q" "PackRow C calls p = (Inr out, p')"
  shows "fst (PackRow C calls q) = Inr out"
proof -
  obtain x y where a: "AddValues C calls p = (x, y)" by fastforce
  with assms(3) obtain bs where x: "x = Inr bs"
    by (cases x) (auto simp: PackRow_def)
  obtain x' y' where c: "Complete C y = (x', y')" by fastforce
  with assms(3) a x obtain s where x': "x' = Inr s"
    by (cases x') (auto simp: PackRow_def)
  from assms(3) a x c x' have out: "out = (bs, s)"
    by (simp add: PackRow_def)
  from AddValues_same_row [OF assms(1,2)] a x
  obtain z where z: "AddValues C calls q = (Inr bs, z)" "same_row y z" "packer_inv y"
    by blast
  from Complete_same_row [OF z(3,2)] c x'
  obtain z' where "Complete C z = (Inr s, z')" by blast
  with z(1) out show ?thesis by (simp add: PackRow_def)
qed

lemma ConsumeColumn_limit:
  "ConsumeColumn C column_id v tail_size cd res p = (r, p') \<Longrightarrow>
     packed_size_limit p' = packed_size_limit p"
  by (auto simp: ConsumeColumn_def StoreOffset_def Let_def split: if_splits)

lemma DoAddValue_loop_limit:
  "DoAddValue_loop C column_id v tail_size res p = (r, p')
     \<Longrightarrow> packed_size_limit p' = packed_size_limit p"
proof (induction C column_id v tail_size res p rule: DoAddValue_loop.induct)
  case (1 C column_id v tail_size res p)
  let ?cd = "column_packing_data (packing p) (idx p)"
  obtain x y where c: "ConsumeColumn C column_id v tail_size ?cd res p = (x, y)"
    by fastforce
  then have fy: "packed_size_limit y = packed_size_limit p"
    by (rule ConsumeColumn_limit)
  show ?case
  proof (cases "\<not> columns (packing p) \<le> idx p \<and> \<not> column_id < col_id ?cd
                 \<and> (\<exists>res'. x = Inr res') \<and> col_id ?cd \<noteq> column_id")
    case True
    then obtain res' where x: "x = Inr res'" by blast
    from True x c "1.prems"
    have "DoAddValue_loop C column_id v tail_size res' y = (r, p')"
      by (subst (asm) DoAddValue_loop.simps) (simp add: Let_def)
    with "1.IH" [OF _ refl _ c [symmetric] x] True fy show ?thesis by simp
  next
    case False
    with c "1.prems" fy show ?thesis
      by (subst (asm) DoAddValue_loop.simps)
         (auto simp: Let_def split: if_splits sum.splits)
  qed
qed

lemma DoAddValue_limit:
  "DoAddValue C column_id v tail_size p = (r, p') \<Longrightarrow>
     packed_size_limit p' = packed_size_limit p"
  by (auto simp: DoAddValue_def split: if_splits dest: DoAddValue_loop_limit)

lemma header_kept_refl: "header_kept p p"
  by (simp add: header_kept_def)

lemma header_kept_trans: "header_kept p q \<Longrightarrow> header_kept q r \<Longrightarrow> header_kept p r"
  by (simp add: header_kept_def)

lemma DoAddValue_header:
  assumes "packer_inv p" "DoAddValue C column_id v tail_size p = (Inr r, p')"
  shows "header_kept p p'"
proof -
  from assms have E: "call_effect column_id p p'"
    by (rule DoAddValue_call_effect)
  from assms(2) have l: "packed_size_limit p' = packed_size_limit p"
    by (rule DoAddValue_limit)
  from assms(1) have "prefix_end p - prefix_len (packing p) \<le> varlen_write_pos p"
    "prefix_end p - prefix_len (packing p) \<le> prefix_end p"
    by (simp_all add: packer_inv_def)
  with E l show ?thesis
    by (auto simp: header_kept_def call_effect_def)
qed

lemma AddValues_header:
  "packer_inv p \<Longrightarrow> AddValues C calls p = (Inr bs, p') \<Longrightarrow>
     header_kept p p' \<and> packer_inv p'"
proof (induction calls arbitrary: p bs p')
  case Nil
  then show ?case by (simp add: header_kept_refl)
next
  case (Cons call calls)
  obtain column_id v tail_size where call: "call = (column_id, v, tail_size)"
    by (cases call) auto
  obtain x y where d: "DoAddValue C column_id v tail_size p = (x, y)"
    by fastforce
  with Cons.prems(2) call obtain b where x: "x = Inr b"
    by (cases x) auto
  obtain x' y' where r: "AddValues C calls y = (x', y')"
    by fastforce
  with Cons.prems(2) call d x obtain bs' where x': "x' = Inr bs'"
    by (cases x') auto
  from Cons.prems(2) call d x r x' have e: "p' = y'"
    by simp
  from Cons.prems(1) d x have iy: "packer_inv y"
    using DoAddValue_inv by blast
  from Cons.prems(1) d x have hy: "header_kept p y"
    using DoAddValue_header by blast
  from Cons.IH [OF iy] r x' have "header_kept y y' \<and> packer_inv y'" by simp
  with hy e show ?case using header_kept_trans by blast
qed

lemma Complete_header:
  "packer_inv p \<Longrightarrow> Complete C p = (Inr s, p') \<Longrightarrow> header_kept p p' \<and> packer_inv p'"
proof (induction C p rule: Complete.induct)
  case (1 C p)
  show ?case
  proof (cases "idx p < columns (packing p)")
    case False
    with "1.prems" show ?thesis
      by (subst (asm) Complete.simps) (auto simp: header_kept_refl split: if_splits)
  next
    case True
    let ?cd = "column_packing_data (packing p) (idx p)"
    obtain x y where a: "AddValue_slice C (col_id ?cd) [] 0 p = (x, y)"
      by fastforce
    from True "1.prems"(2) have n: "nullable ?cd"
      by (subst (asm) Complete.simps) (auto simp: Let_def split: if_splits)
    from True n a "1.prems"(2) obtain b where x: "x = Inr b"
      by (subst (asm) Complete.simps) (cases x; simp add: Let_def)
    from True n a x "1.prems"(2) have c: "Complete C y = (Inr s, p')"
      by (subst (asm) Complete.simps) (simp add: Let_def)
    from a x have d: "DoAddValue C (col_id ?cd) (Slice []) 0 p = (Inr b, y)"
      by (simp add: AddValue_slice_def)
    from "1.prems"(1) d have iy: "packer_inv y" by (rule DoAddValue_inv)
    from "1.prems"(1) d have hy: "header_kept p y" by (rule DoAddValue_header)
    from "1.IH" [OF True refl _ a [symmetric] x iy c] n
    have "header_kept y p' \<and> packer_inv p'" by simp
    with hy show ?thesis using header_kept_trans by blast
  qed
qed

lemma PackRow_header:
  assumes "packer_inv p" "PackRow C calls p = (Inr out, p')"
  shows "header_kept p p' \<and> packer_inv p'"
proof -
  obtain x y where a: "AddValues C calls p = (x, y)" by fastforce
  with assms(2) obtain bs where x: "x = Inr bs"
    by (cases x) (auto simp: PackRow_def)
  obtain x' y' where c: "Complete C y = (x', y')" by fastforce
  with assms(2) a x obtain s where x': "x' = Inr s"
    by (cases x') (auto simp: PackRow_def)
  from assms(2) a x c x' have e: "p' = y'"
    by (simp add: PackRow_def)
  from AddValues_header [OF assms(1)] a x have 1: "header_kept p y" "packer_inv y"
    by blast+
  from Complete_header [OF 1(2)] c x' have 2: "header_kept y y'" "packer_inv y'"
    by blast+
  from 1 2 e show ?thesis using header_kept_trans by blast
qed

lemma length_grown: "length (GrowByAtLeast buf n junk) = length buf + n"
  by (simp add: GrowByAtLeast_def)

lemma nth_grown: "i < length buf \<Longrightarrow> GrowByAtLeast buf n junk ! i = buf ! i"
  by (simp add: GrowByAtLeast_def nth_append)

lemma fresh_same_row:
  "same_row (RowPacker_slice C version sp limit control_fields junk)
            (RowPacker_slice C version sp limit control_fields junk')"
  by (simp add: same_row_def RowPacker_slice_def Init_def Let_def length_grown nth_grown)

lemma fresh_inv: "packer_inv (RowPacker_slice C version sp limit control_fields junk)"
  by (simp add: RowPacker_slice_def Init_inv)

lemma restart_same_row:
  assumes "header_kept (RowPacker_slice C version sp limit control_fields junk) p1"
    and "packer_inv p1"
  shows "same_row (RowPacker_slice C version sp limit control_fields junk') (Restart p1)"
proof -
  let ?p0 = "RowPacker_slice C version sp limit control_fields junk"
  let ?hdr = "control_fields @ [kPackedRow C] @ FastEncodeUnsignedVarInt C (ucast version)"
  from assms(2) have e: "prefix_end p1 \<le> length (result p1)"
    by (simp add: packer_inv_def)
  have p0: "packing ?p0 = sp" "packed_size_limit ?p0 = make_signed (PackedSizeLimit C limit)"
    "prefix_end ?p0 = length ?hdr + prefix_len sp"
    by (simp_all add: RowPacker_slice_def Init_def Let_def length_grown)
  have h0: "result ?p0 ! i = ?hdr ! i" if "i < length ?hdr" for i
    using that by (simp add: RowPacker_slice_def Init_def Let_def nth_grown)
  from assms(1) p0 have k: "packing p1 = sp" "packed_size_limit p1 = make_signed (PackedSizeLimit C limit)"
    "prefix_end p1 = length ?hdr + prefix_len sp"
    by (simp_all add: header_kept_def)
  from assms(1) p0 have kb: "result p1 ! i = result ?p0 ! i" if "i < length ?hdr" for i
    using that by (simp add: header_kept_def)
  show ?thesis
    using k e kb h0
    by (simp add: same_row_def Restart_def RowPacker_slice_def Init_def Let_def length_grown
          nth_grown)
qed












subsection \<open>Evaluating the concrete instance\<close>

lemma demo_packing_simps:
  "column_list demo_packing =
     [\<lparr>col_id = 1, nullable = False, col_size = 4, varlen = False\<rparr>,
      \<lparr>col_id = 2, nullable = True, col_size = 0, varlen = True\<rparr>,
      \<lparr>col_id = 3, nullable = False, col_size = 0, varlen = True\<rparr>]"
  "SkippedColumn demo_packing c = (c = 7)"
  "columns demo_packing = 3"
  "prefix_len demo_packing = 8"
  by (simp_all add: demo_packing_def columns_def prefix_len_def)

lemma demo_packer_eq:
  "demo_packer =
     \<lparr>packing = demo_packing, packed_size_limit = 32768, idx = 0, prefix_end = 10,
      result = [122, 1, 170, 170, 170, 170, 170, 170, 170, 170], varlen_write_pos = 2\<rparr>"
  by (simp add: demo_packer_def RowPacker_slice_def Init_def demo_codecs_def
        demo_packing_simps GrowByAtLeast_def PackedSizeLimit_def make_signed_def Let_def)

lemmas demo_eval =
  DoAddValue_def DoAddValue_loop.simps ConsumeColumn_def StoreOffset_def demo_packing_simps
  column_packing_data_def Let_def Store32_def le32_def narrow_cast_u32_def
  AddValue_slice_def exceeds_limit_def make_signed_def

lemma demo_step_1:
  "DoAddValue demo_codecs 1 (Slice [1, 2, 3, 4]) 0 demo_packer = (Inr True, demo_packer_1)"
  by (simp add: demo_eval demo_packer_eq demo_packer_1_def)

lemma demo_step_3:
  "DoAddValue demo_codecs 3 (Slice [97, 98, 99]) 0 demo_packer_1 = (Inr True, demo_packer_3)"
  by (simp add: demo_eval demo_packer_1_def demo_packer_3_def)




lemma demo_packer_1_inv: "packer_inv demo_packer_1"
  by (simp add: packer_inv_def demo_packer_1_def demo_packing_simps varlen_before_def)



lemma demo_big_step_1:
  "DoAddValue demo_codecs 1 (Slice [1, 2, 3, 4]) 0
     (RowPacker_slice demo_codecs 1 demo_packing 1099511627776 []
        [170, 170, 170, 170, 170, 170, 170, 170])
   = (Inr True, demo_big_packer_1)"
  by (simp add: demo_eval demo_big_packer_1_def RowPacker_slice_def Init_def
        demo_codecs_def GrowByAtLeast_def PackedSizeLimit_def)

lemma demo_big_step_3:
  "DoAddValue demo_codecs 3 (Slice (replicate 4294967292 0)) 0 demo_big_packer_1 =
     (Inr True,
      demo_big_packer_1\<lparr>idx := 3, varlen_write_pos := 10,
        result := [122, 1, 4, 0, 0, 0, 0, 0, 0, 0, 1, 2, 3, 4] @ replicate 4294967292 0\<rparr>)"
  by (simp add: demo_eval demo_big_packer_1_def)

lemma demo_complete_3:
  "Complete demo_codecs demo_packer_3 = (Inr (result demo_packer_3), demo_packer_3)"
  by (subst Complete.simps) (simp add: demo_packer_3_def demo_packing_simps)

lemma demo_run:
  "PackRow demo_codecs [(1, Slice [1, 2, 3, 4], 0), (3, Slice [97, 98, 99], 0)] demo_packer =
     (Inr ([True, True], [122, 1, 4, 0, 0, 0, 7, 0, 0, 0, 1, 2, 3, 4, 97, 98, 99]),
      demo_packer_3)"
  by (simp add: PackRow_def demo_step_1 demo_step_3 demo_complete_3)
     (simp add: demo_packer_3_def)

lemma demo_failed_step_5:
  "DoAddValue demo_codecs 5 (Slice [1]) 0 demo_packer_1 = (Inl InvalidArgument, demo_packer_gap)"
  by (simp add: demo_eval demo_packer_1_def demo_packer_gap_def)










lemma limit_RowPacker_fields:
  "packed_size_limit (RowPacker_fields C version sp limit control_fields junk) =
     make_signed (PackedSizeLimit C limit)"
  by (simp add: RowPacker_fields_def Init_def Let_def)

subsection \<open>The claims of the specification\<close>

text \<open>
  C1 as stated fails once the payload reaches \<open>2 ^ 32\<close> bytes: the slot is a 32-bit
  integer, and \<^verbatim>\<open>narrow_cast<uint32_t>\<close> keeps the low 32 bits of the length. Here
  the payload is 4294967296 bytes long and the slot of column 3 holds 0.
\<close>

theorem offset_slot_wraps_counterexample:
  "DoAddValue demo_codecs 1 (Slice [1, 2, 3, 4]) 0
     (RowPacker_slice demo_codecs 1 demo_packing 1099511627776 []
        [170, 170, 170, 170, 170, 170, 170, 170])
     = (Inr True, demo_big_packer_1) \<and>
   fst (DoAddValue demo_codecs 3 (Slice (replicate 4294967292 0)) 0 demo_big_packer_1)
     = Inr True \<and>
   varlen (column_packing_data demo_packing 2) \<and>
   slot_pos demo_big_packer_1 2 = 6 \<and>
   length (result (snd (DoAddValue demo_codecs 3 (Slice (replicate 4294967292 0)) 0
                          demo_big_packer_1)))
     - prefix_end demo_big_packer_1 = 4294967296 \<and>
   offset_slot (snd (DoAddValue demo_codecs 3 (Slice (replicate 4294967292 0)) 0
                       demo_big_packer_1)) 6 = [0, 0, 0, 0] \<and>
   unat (Load32 (offset_slot (snd (DoAddValue demo_codecs 3 (Slice (replicate 4294967292 0)) 0
                       demo_big_packer_1)) 6)) = 0"
proof -
  let ?p' = "demo_big_packer_1\<lparr>idx := 3, varlen_write_pos := 10,
        result := [122, 1, 4, 0, 0, 0, 0, 0, 0, 0, 1, 2, 3, 4] @ replicate 4294967292 0\<rparr>"
  have a: "varlen (column_packing_data demo_packing 2)"
    by (simp add: demo_packing_simps column_packing_data_def)
  have b: "slot_pos demo_big_packer_1 2 = 6"
    by (simp add: slot_pos_def varlen_before_def demo_big_packer_1_def demo_packing_simps)
  have c: "length (result ?p') - prefix_end demo_big_packer_1 = 4294967296"
    by (simp add: demo_big_packer_1_def)
  have d: "offset_slot ?p' 6 = [0, 0, 0, 0]"
    by (simp add: offset_slot_def)
  have e: "unat (Load32 [0, 0, 0, 0]) = 0"
    by (simp add: Load32_def)
  from demo_big_step_1 a b c d e show ?thesis
    by (simp add: demo_big_step_3)
qed

text \<open>
  C1, amended. On a packer satisfying its invariant, first for one descriptor, then for
  a whole call.
  \<^item> Every descriptor consumed by the loop (\<open>ConsumeColumn\<close> returns a value: the
    value was appended, null, or left out for overflow): if it is variable-length, the
    4 bytes at the write cursor become the little-endian encoding of the payload
    length reached, that is buffer length minus prefix end, reduced modulo
    \<open>2 ^ 32\<close>; the cursor moves by 4; no other byte of the prefix changes. If it is
    fixed-width, the cursor and every byte of the prefix stay as they were.
  \<^item> For every \<open>AddValue\<close> call that returns a value: the cursor advances by 4 times
    the number of variable-length descriptors consumed, each of them has its own slot
    between the old and the new cursor holding the payload length reached with that
    column (the final length for the matched column, the length at entry for a skipped
    nullable one), and the prefix is unchanged outside these slots.
\<close>

theorem offset_slots_written:
  assumes "packer_inv p"
  shows
   "(\<forall>cd res res' q.
       idx p < columns (packing p) \<and> cd = column_packing_data (packing p) (idx p) \<and>
       ConsumeColumn C column_id v tail_size cd res p = (Inr res', q) \<longrightarrow>
         (varlen cd \<longrightarrow>
            varlen_write_pos q = varlen_write_pos p + 4 \<and>
            offset_slot q (varlen_write_pos p) =
              le32 (narrow_cast_u32 (length (result q)) (prefix_end p)) \<and>
            unat (Load32 (offset_slot q (varlen_write_pos p))) =
              (length (result q) - prefix_end p) mod 2 ^ 32 \<and>
            (\<forall>i < prefix_end p.
               i < varlen_write_pos p \<or> varlen_write_pos p + 4 \<le> i \<longrightarrow>
                 result q ! i = result p ! i)) \<and>
         (\<not> varlen cd \<longrightarrow>
            varlen_write_pos q = varlen_write_pos p \<and>
            (\<forall>i < prefix_end p. result q ! i = result p ! i))) \<and>
    (\<forall>r p'. DoAddValue C column_id v tail_size p = (Inr r, p') \<longrightarrow>
       varlen_write_pos p' =
         varlen_write_pos p
           + 4 * (varlen_before (packing p) (idx p') - varlen_before (packing p) (idx p)) \<and>
       (\<forall>i < prefix_end p.
          i < varlen_write_pos p \<or> varlen_write_pos p' \<le> i \<longrightarrow>
            result p' ! i = result p ! i) \<and>
       (\<forall>j. idx p \<le> j \<and> j < idx p' \<and> varlen (column_packing_data (packing p) j) \<longrightarrow>
          varlen_write_pos p \<le> slot_pos p j \<and> slot_pos p j + 4 \<le> varlen_write_pos p' \<and>
          offset_slot p' (slot_pos p j) =
            le32 (narrow_cast_u32
                    (if col_id (column_packing_data (packing p) j) = column_id
                     then length (result p') else length (result p))
                    (prefix_end p)) \<and>
          unat (Load32 (offset_slot p' (slot_pos p j))) =
            ((if col_id (column_packing_data (packing p) j) = column_id
              then length (result p') else length (result p)) - prefix_end p) mod 2 ^ 32))" (is "?step \<and> ?call")
proof (rule conjI)
  show ?step
    by (intro allI impI, elim conjE) (rule step_offset_slot [OF assms]; assumption)
  show ?call
    using call_offset_slots [OF assms] by (intro allI impI)
qed

theorem offset_slots_written_witness:
  "packer_inv demo_packer_1 \<and>
   DoAddValue demo_codecs 3 (Slice [97, 98, 99]) 0 demo_packer_1 = (Inr True, demo_packer_3) \<and>
   varlen_write_pos demo_packer_3 = varlen_write_pos demo_packer_1 + 8 \<and>
   slot_pos demo_packer_1 1 = 2 \<and> slot_pos demo_packer_1 2 = 6 \<and>
   unat (Load32 (offset_slot demo_packer_3 2)) = 4 \<and>
   unat (Load32 (offset_slot demo_packer_3 6)) = 7 \<and>
   length (result demo_packer_1) - prefix_end demo_packer_1 = 4 \<and>
   length (result demo_packer_3) - prefix_end demo_packer_1 = 7"
proof -
  note T = offset_slots_written [OF demo_packer_1_inv,
      where C = demo_codecs and column_id = 3 and v = "Slice [97, 98, 99]" and tail_size = 0,
      THEN conjunct2, THEN spec, THEN spec, THEN mp, OF demo_step_3]
  have s1: "slot_pos demo_packer_1 1 = 2" and s2: "slot_pos demo_packer_1 2 = 6"
    by (simp_all add: slot_pos_def varlen_before_def demo_packer_1_def demo_packing_simps)
  have h1: "idx demo_packer_1 \<le> 1 \<and> 1 < idx demo_packer_3 \<and>
            varlen (column_packing_data (packing demo_packer_1) 1)"
    and h2: "idx demo_packer_1 \<le> 2 \<and> 2 < idx demo_packer_3 \<and>
            varlen (column_packing_data (packing demo_packer_1) 2)"
    by (simp_all add: demo_packer_1_def demo_packer_3_def demo_packing_simps
          column_packing_data_def)
  from T have c: "varlen_write_pos demo_packer_3 = varlen_write_pos demo_packer_1 + 8"
    by (simp add: varlen_before_def demo_packer_1_def demo_packer_3_def demo_packing_simps)
  from T h1 have "unat (Load32 (offset_slot demo_packer_3 (slot_pos demo_packer_1 1))) =
         ((if col_id (column_packing_data (packing demo_packer_1) 1) = 3
           then length (result demo_packer_3) else length (result demo_packer_1))
            - prefix_end demo_packer_1) mod 2 ^ 32"
    by blast
  then have a: "unat (Load32 (offset_slot demo_packer_3 2)) = 4"
    unfolding s1 by (simp add: demo_packer_1_def demo_packing_simps column_packing_data_def)
  from T h2 have "unat (Load32 (offset_slot demo_packer_3 (slot_pos demo_packer_1 2))) =
         ((if col_id (column_packing_data (packing demo_packer_1) 2) = 3
           then length (result demo_packer_3) else length (result demo_packer_1))
            - prefix_end demo_packer_1) mod 2 ^ 32"
    by blast
  then have b: "unat (Load32 (offset_slot demo_packer_3 6)) = 7"
    unfolding s2
    by (simp add: demo_packer_1_def demo_packer_3_def demo_packing_simps
          column_packing_data_def)
  have l: "length (result demo_packer_1) - prefix_end demo_packer_1 = 4"
    "length (result demo_packer_3) - prefix_end demo_packer_1 = 7"
    by (simp_all add: demo_packer_1_def demo_packer_3_def)
  from demo_packer_1_inv demo_step_3 c s1 s2 a b l show ?thesis by blast
qed




text \<open>
  C3. When the payload starts with a varint that decodes (leaving \<open>rest\<close>) and the
  map holds the decoded version, the remapper succeeds and the output is exactly the
  encoded control fields, the packed-row marker, the varint of the mapped version and
  \<open>rest\<close>, whatever the output buffer held before.
\<close>

theorem remap_known_version:
  assumes "FastDecodeUnsignedVarInt C packed = Inr (decoded, rest)"
    and "schema_versions_map (ucast decoded) = Some mapped_version"
  shows "ReplaceSchemaVersionInPackedValue C packed control_fields schema_versions_map out =
           (Inr (),
            AppendEncoded C control_fields @ [kPackedRow C]
              @ FastAppendUnsignedVarInt C (ucast mapped_version) @ rest)"
  using assms by (simp add: ReplaceSchemaVersionInPackedValue_def Let_def)

theorem remap_known_version_witness:
  "FastDecodeUnsignedVarInt demo_codecs [5, 1, 2, 3] = Inr (5, [1, 2, 3]) \<and>
   [5 \<mapsto> 9] (ucast (5 :: 64 word) :: SchemaVersion) = Some (9 :: SchemaVersion) \<and>
   ReplaceSchemaVersionInPackedValue demo_codecs [5, 1, 2, 3] [7] [5 \<mapsto> 9] [255, 255] =
     (Inr (), [7, 122, 9, 1, 2, 3])"
proof -
  have d: "FastDecodeUnsignedVarInt demo_codecs [5, 1, 2, 3] = Inr (5, [1, 2, 3])"
    by (simp add: demo_codecs_def)
  have m: "[5 \<mapsto> 9] (ucast (5 :: 64 word) :: SchemaVersion) = Some (9 :: SchemaVersion)"
    by simp
  from remap_known_version
         [where C = demo_codecs and packed = "[5, 1, 2, 3]" and decoded = 5
            and rest = "[1, 2, 3]" and schema_versions_map = "[5 \<mapsto> 9]"
            and mapped_version = 9 and control_fields = "[7]" and out = "[255, 255]"]
       d m
  show ?thesis
    by (simp add: demo_codecs_def)
qed

text \<open>
  C4. When the packer has consumed all columns, or the next descriptor's column id
  exceeds the supplied one, the call returns \<open>false\<close> and leaves the whole packer
  (cursor, buffer, offset cursor) as it was if the supplied id is a skipped column, and
  otherwise fails with \<open>InvalidArgument\<close>.
\<close>

theorem skipped_or_misordered_column:
  assumes "idx p \<ge> columns (packing p) \<or>
           col_id (column_packing_data (packing p) (idx p)) > column_id"
  shows "DoAddValue C column_id v tail_size p =
           (if SkippedColumn (packing p) column_id then (Inr False, p)
            else (Inl InvalidArgument, p))"
  using assms by (subst DoAddValue_def, subst DoAddValue_loop.simps) (auto simp: Let_def)

theorem skipped_or_misordered_column_witness:
  "(columns (packing demo_packer) \<le> idx demo_packer \<or>
      0 < col_id (column_packing_data (packing demo_packer) (idx demo_packer))) \<and>
   DoAddValue demo_codecs 0 (Slice [5]) 0 demo_packer = (Inl InvalidArgument, demo_packer) \<and>
   DoAddValue demo_codecs 7 (Slice [5]) 0 demo_packer_3 = (Inr False, demo_packer_3)"
proof -
  have h1: "columns (packing demo_packer) \<le> idx demo_packer \<or>
      0 < col_id (column_packing_data (packing demo_packer) (idx demo_packer))"
    by (simp add: demo_packer_eq demo_packing_simps column_packing_data_def)
  have h2: "columns (packing demo_packer_3) \<le> idx demo_packer_3 \<or>
      7 < col_id (column_packing_data (packing demo_packer_3) (idx demo_packer_3))"
    by (simp add: demo_packer_3_def demo_packing_simps)
  from skipped_or_misordered_column [OF h1, of demo_codecs "Slice [5]" 0]
    skipped_or_misordered_column [OF h2, of demo_codecs "Slice [5]" 0] h1
  show ?thesis
    by (simp add: demo_packer_eq demo_packer_3_def demo_packing_simps)
qed







text \<open>
  C7 as stated fails on the kind of error of the second condition. The packer
  \<open>demo_packer_gap\<close> is left by a failed call with all descriptors consumed and one slot
  of the offset table unwritten; \<open>Complete\<close> rejects it with \<open>InvalidArgument\<close>,
  the status of the input-ordering errors, not with \<open>Corruption\<close>.
\<close>

theorem unpopulated_offset_table_counterexample:
  "DoAddValue demo_codecs 5 (Slice [1]) 0 demo_packer_1 =
     (Inl InvalidArgument, demo_packer_gap) \<and>
   idx demo_packer_gap = columns (packing demo_packer_gap) \<and>
   varlen_write_pos demo_packer_gap = 6 \<and> prefix_end demo_packer_gap = 10 \<and>
   Complete demo_codecs demo_packer_gap = (Inl InvalidArgument, demo_packer_gap) \<and>
   fst (Complete demo_codecs demo_packer_gap) \<noteq> Inl Corruption"
  using demo_failed_step_5
  by (simp add: Complete.simps demo_packer_gap_def demo_packing_simps)

text \<open>
  C7, amended. Neither invariant violation is tolerated, and each has its own status.
  When a fixed-width descriptor is consumed and the number of bytes appended for it
  differs from its declared size, the call fails with \<open>Corruption\<close>. When
  \<open>Complete\<close> finds the offset-table cursor away from the prefix end after all
  descriptors are consumed, it fails with \<open>InvalidArgument\<close>; whenever \<open>Complete\<close>
  returns a buffer the cursor is at the prefix end.
\<close>

theorem fatal_invariant_checks:
  "(idx p < columns (packing p) \<and> cd = column_packing_data (packing p) (idx p) \<and>
    \<not> varlen cd \<and> col_id cd \<le> column_id \<and> (col_id cd < column_id \<longrightarrow> nullable cd) \<and>
    appended = (if col_id cd < column_id \<or> (nullable cd \<and> IsNull C v) then []
                else PackValue C v []) \<and>
    length appended \<noteq> col_size cd
    \<longrightarrow> DoAddValue C column_id v tail_size p =
          (Inl Corruption, p\<lparr>idx := idx p + 1, result := result p @ appended\<rparr>) \<and>
        DoAddValue_loop C column_id v tail_size res p =
          (Inl Corruption, p\<lparr>idx := idx p + 1, result := result p @ appended\<rparr>)) \<and>
   (\<not> idx p < columns (packing p) \<and> varlen_write_pos p \<noteq> prefix_end p
    \<longrightarrow> Complete C p = (Inl InvalidArgument, p)) \<and>
   (\<forall>s p'. Complete C p = (Inr s, p') \<longrightarrow> varlen_write_pos p' = prefix_end p')"
proof (intro conjI impI allI)
  assume h: "idx p < columns (packing p) \<and> cd = column_packing_data (packing p) (idx p) \<and>
    \<not> varlen cd \<and> col_id cd \<le> column_id \<and> (col_id cd < column_id \<longrightarrow> nullable cd) \<and>
    appended = (if col_id cd < column_id \<or> (nullable cd \<and> IsNull C v) then []
                else PackValue C v []) \<and>
    length appended \<noteq> col_size cd"
  have a: "PackValue C v (result p) = result p @ PackValue C v []"
    by (rule PackValue_append)
  from h show l: "DoAddValue_loop C column_id v tail_size res p =
          (Inl Corruption, p\<lparr>idx := idx p + 1, result := result p @ appended\<rparr>)" for res
    by (auto simp: loop_unfold ConsumeColumn_def Let_def a)
  from h l [of True] show "DoAddValue C column_id v tail_size p =
          (Inl Corruption, p\<lparr>idx := idx p + 1, result := result p @ appended\<rparr>)"
    by (simp add: DoAddValue_loop_eq)
next
  assume "\<not> idx p < columns (packing p) \<and> varlen_write_pos p \<noteq> prefix_end p"
  then show "Complete C p = (Inl InvalidArgument, p)"
    by (subst Complete.simps) simp
next
  fix s p'
  assume "Complete C p = (Inr s, p')"
  then show "varlen_write_pos p' = prefix_end p'"
    using Complete_Inr by blast
qed

theorem fatal_invariant_checks_witness:
  "DoAddValue demo_codecs 1 (Slice [1, 2, 3]) 0 demo_packer =
     (Inl Corruption,
      demo_packer\<lparr>idx := 1,
        result := [122, 1, 170, 170, 170, 170, 170, 170, 170, 170, 1, 2, 3]\<rparr>) \<and>
   DoAddValue demo_codecs 5 (Slice [1]) 0 demo_packer_1
     = (Inl InvalidArgument, demo_packer_gap) \<and>
   \<not> idx demo_packer_gap < columns (packing demo_packer_gap) \<and>
   varlen_write_pos demo_packer_gap \<noteq> prefix_end demo_packer_gap \<and>
   Complete demo_codecs demo_packer_gap = (Inl InvalidArgument, demo_packer_gap) \<and>
   Complete demo_codecs demo_packer_3 = (Inr (result demo_packer_3), demo_packer_3) \<and>
   varlen_write_pos demo_packer_3 = prefix_end demo_packer_3"
proof -
  note T1 = fatal_invariant_checks
    [where p = demo_packer and cd = "column_packing_data (packing demo_packer) (idx demo_packer)"
       and column_id = 1 and C = demo_codecs and v = "Slice [1, 2, 3]"
       and appended = "[1, 2, 3]" and tail_size = 0]
  note T2 = fatal_invariant_checks [where p = demo_packer_gap and C = demo_codecs]
  note T3 = fatal_invariant_checks [where p = demo_packer_3 and C = demo_codecs]
  have a: "DoAddValue demo_codecs 1 (Slice [1, 2, 3]) 0 demo_packer =
     (Inl Corruption,
      demo_packer\<lparr>idx := 1,
        result := [122, 1, 170, 170, 170, 170, 170, 170, 170, 170, 1, 2, 3]\<rparr>)"
    using T1 by (simp add: demo_packer_eq demo_packing_simps column_packing_data_def)
  have b: "\<not> idx demo_packer_gap < columns (packing demo_packer_gap) \<and>
     varlen_write_pos demo_packer_gap \<noteq> prefix_end demo_packer_gap"
    by (simp add: demo_packer_gap_def demo_packing_simps)
  with T2 have c: "Complete demo_codecs demo_packer_gap = (Inl InvalidArgument, demo_packer_gap)"
    by blast
  from T3 demo_complete_3 have e: "varlen_write_pos demo_packer_3 = prefix_end demo_packer_3"
    by blast
  from a b c demo_complete_3 e demo_failed_step_5 show ?thesis by blast
qed

text \<open>
  C8 as stated fails: on the not-found path the output buffer has already received the
  control fields and the marker byte.
\<close>

theorem remap_unknown_version_output_counterexample:
  "FastDecodeUnsignedVarInt demo_codecs [5, 1, 2, 3] = Inr (5, [1, 2, 3]) \<and>
   Map.empty (ucast (5 :: 64 word) :: SchemaVersion) = (None :: SchemaVersion option) \<and>
   ReplaceSchemaVersionInPackedValue demo_codecs [5, 1, 2, 3] [7] Map.empty [] =
     (Inl NotFound, [7, 122]) \<and>
   snd (ReplaceSchemaVersionInPackedValue demo_codecs [5, 1, 2, 3] [7] Map.empty []) \<noteq> []"
  by (simp add: ReplaceSchemaVersionInPackedValue_def demo_codecs_def)

text \<open>
  C8, amended. When the map lacks the decoded version the remapper fails with
  \<open>NotFound\<close>; the output buffer then holds the encoded control fields followed by
  the packed-row marker (its earlier contents are gone, no version and no payload byte
  has been appended).
\<close>

theorem remap_unknown_version:
  assumes "FastDecodeUnsignedVarInt C packed = Inr (decoded, rest)"
    and "schema_versions_map (ucast decoded) = None"
  shows "ReplaceSchemaVersionInPackedValue C packed control_fields schema_versions_map out =
           (Inl NotFound, AppendEncoded C control_fields @ [kPackedRow C])"
  using assms by (simp add: ReplaceSchemaVersionInPackedValue_def Let_def)

theorem remap_unknown_version_witness:
  "FastDecodeUnsignedVarInt demo_codecs [6, 1, 2, 3] = Inr (6, [1, 2, 3]) \<and>
   [5 \<mapsto> 9] (ucast (6 :: 64 word) :: SchemaVersion) = (None :: SchemaVersion option) \<and>
   ReplaceSchemaVersionInPackedValue demo_codecs [6, 1, 2, 3] [7] [5 \<mapsto> 9] [255, 255] =
     (Inl NotFound, [7, 122])"
proof -
  have d: "FastDecodeUnsignedVarInt demo_codecs [6, 1, 2, 3] = Inr (6, [1, 2, 3])"
    by (simp add: demo_codecs_def)
  have m: "[5 \<mapsto> 9] (ucast (6 :: 64 word) :: SchemaVersion) = (None :: SchemaVersion option)"
    by simp
  from remap_unknown_version
         [where C = demo_codecs and packed = "[6, 1, 2, 3]" and decoded = 6
            and rest = "[1, 2, 3]" and schema_versions_map = "[5 \<mapsto> 9]"
            and control_fields = "[7]" and out = "[255, 255]"]
       d m
  show ?thesis
    by (simp add: demo_codecs_def)
qed

text \<open>
  C9. Take a run (a sequence of \<open>AddValue\<close> calls, then \<open>Complete\<close>) that
  succeeds on a freshly constructed packer and leaves it as \<open>p1\<close>. Then the same run
  on \<open>Restart p1\<close> succeeds with the same booleans and the same final bytes, and so
  does the run on any fresh packer built from the same schema version, packing, size
  limit and control fields, whatever the reserved offset table held at construction.
  The constructor taking structured control fields is the other constructor applied to
  their encoding.
\<close>

theorem restart_reproduces_row:
  assumes "PackRow C calls (RowPacker_slice C version sp limit control_fields junk)
             = (Inr out, p1)"
  shows "fst (PackRow C calls (Restart p1)) = Inr out \<and>
         fst (PackRow C calls (RowPacker_slice C version sp limit control_fields junk'))
           = Inr out \<and>
         RowPacker_fields C version sp limit cf junk =
           RowPacker_slice C version sp limit (AppendEncoded C cf) junk"
proof -
  let ?p0 = "RowPacker_slice C version sp limit control_fields junk"
  let ?p0' = "RowPacker_slice C version sp limit control_fields junk'"
  have i0: "packer_inv ?p0" and i0': "packer_inv ?p0'" by (rule fresh_inv)+
  have s0: "same_row ?p0 ?p0'" by (rule fresh_same_row)
  from PackRow_same_row [OF i0 s0 assms] have a: "fst (PackRow C calls ?p0') = Inr out" .
  then obtain p1' where a': "PackRow C calls ?p0' = (Inr out, p1')"
    by (cases "PackRow C calls ?p0'") simp
  from PackRow_header [OF i0 assms] have h: "header_kept ?p0 p1" "packer_inv p1"
    by simp_all
  from h have s1: "same_row ?p0' (Restart p1)" by (rule restart_same_row)
  from PackRow_same_row [OF i0' s1 a'] have b: "fst (PackRow C calls (Restart p1)) = Inr out" .
  have c: "RowPacker_fields C version sp limit cf junk =
           RowPacker_slice C version sp limit (AppendEncoded C cf) junk"
    by (simp add: RowPacker_fields_def RowPacker_slice_def)
  from a b c show ?thesis by blast
qed

theorem restart_reproduces_row_witness:
  "PackRow demo_codecs [(1, Slice [1, 2, 3, 4], 0), (3, Slice [97, 98, 99], 0)] demo_packer =
     (Inr ([True, True], [122, 1, 4, 0, 0, 0, 7, 0, 0, 0, 1, 2, 3, 4, 97, 98, 99]),
      demo_packer_3) \<and>
   result (Restart demo_packer_3) = [122, 1, 4, 0, 0, 0, 7, 0, 0, 0] \<and>
   fst (PackRow demo_codecs [(1, Slice [1, 2, 3, 4], 0), (3, Slice [97, 98, 99], 0)]
          (Restart demo_packer_3)) =
     Inr ([True, True], [122, 1, 4, 0, 0, 0, 7, 0, 0, 0, 1, 2, 3, 4, 97, 98, 99]) \<and>
   result (RowPacker_slice demo_codecs 1 demo_packing 0 [] [1, 2, 3, 4, 5, 6, 7, 8]) =
     [122, 1, 1, 2, 3, 4, 5, 6, 7, 8] \<and>
   fst (PackRow demo_codecs [(1, Slice [1, 2, 3, 4], 0), (3, Slice [97, 98, 99], 0)]
          (RowPacker_slice demo_codecs 1 demo_packing 0 [] [1, 2, 3, 4, 5, 6, 7, 8])) =
     Inr ([True, True], [122, 1, 4, 0, 0, 0, 7, 0, 0, 0, 1, 2, 3, 4, 97, 98, 99])"
proof -
  have r: "PackRow demo_codecs [(1, Slice [1, 2, 3, 4], 0), (3, Slice [97, 98, 99], 0)]
             (RowPacker_slice demo_codecs 1 demo_packing 0 []
                [170, 170, 170, 170, 170, 170, 170, 170]) =
     (Inr ([True, True], [122, 1, 4, 0, 0, 0, 7, 0, 0, 0, 1, 2, 3, 4, 97, 98, 99]),
      demo_packer_3)"
    using demo_run by (simp add: demo_packer_def)
  note T = restart_reproduces_row [OF r, where junk' = "[1, 2, 3, 4, 5, 6, 7, 8]"]
  have a: "result (Restart demo_packer_3) = [122, 1, 4, 0, 0, 0, 7, 0, 0, 0]"
    by (simp add: Restart_def demo_packer_3_def)
  have b: "result (RowPacker_slice demo_codecs 1 demo_packing 0 [] [1, 2, 3, 4, 5, 6, 7, 8]) =
     [122, 1, 1, 2, 3, 4, 5, 6, 7, 8]"
    by (simp add: RowPacker_slice_def Init_def demo_codecs_def demo_packing_simps
          GrowByAtLeast_def Let_def)
  from T demo_run a b show ?thesis by blast
qed

text \<open>
  C10. After construction (either constructor), after \<open>Restart\<close>, and after every
  \<open>AddValue\<close> call that returns a value, \<open>packer_inv\<close> holds: the offset-table
  write cursor minus the table start is 4 times the number of variable-length
  descriptors among the first \<open>idx\<close> ones, \<open>idx\<close> is at most the column count and
  the buffer is at least as long as the prefix end. \<open>Restart\<close> needs only the frame
  part, which every call keeps whatever it returns. Consequently a packer that has
  consumed all descriptors has its cursor at the prefix end, and \<open>Complete\<close> passes
  its final check and returns the buffer.
\<close>

theorem packer_invariant_maintained:
  "packer_inv (RowPacker_fields C version sp limit control_fields junk) \<and>
   packer_inv (RowPacker_slice C version sp limit control_slice junk) \<and>
   (packer_inv p \<longrightarrow> packer_frame p) \<and>
   (packer_frame p \<longrightarrow> packer_inv (Restart p)) \<and>
   (\<forall>r p'. packer_inv p \<and> DoAddValue C column_id v tail_size p = (Inr r, p')
       \<longrightarrow> packer_inv p') \<and>
   (\<forall>r p'. packer_frame p \<and> DoAddValue C column_id v tail_size p = (r, p')
       \<longrightarrow> packer_frame p') \<and>
   (packer_inv p \<and> Finished p \<longrightarrow>
      varlen_write_pos p = prefix_end p \<and> Complete C p = (Inr (result p), p))"
proof (intro conjI allI impI)
  show "packer_inv (RowPacker_fields C version sp limit control_fields junk)"
    by (simp add: RowPacker_fields_def Init_inv)
  show "packer_inv (RowPacker_slice C version sp limit control_slice junk)"
    by (simp add: RowPacker_slice_def Init_inv)
  show "packer_frame p" if "packer_inv p"
    using that by (rule inv_frame)
  show "packer_inv (Restart p)" if "packer_frame p"
    using that by (rule Restart_inv)
  show "packer_inv p'"
    if "packer_inv p \<and> DoAddValue C column_id v tail_size p = (Inr r, p')" for r p'
    using that DoAddValue_inv by blast
  show "packer_frame p'"
    if "packer_frame p \<and> DoAddValue C column_id v tail_size p = (r, p')" for r p'
    using that DoAddValue_frame by blast
  show "varlen_write_pos p = prefix_end p" if "packer_inv p \<and> Finished p"
    using that inv_Finished by blast
  show "Complete C p = (Inr (result p), p)" if "packer_inv p \<and> Finished p"
    using that Complete_Finished by blast
qed

theorem packer_invariant_maintained_witness:
  "packer_inv demo_packer \<and>
   DoAddValue demo_codecs 1 (Slice [1, 2, 3, 4]) 0 demo_packer = (Inr True, demo_packer_1) \<and>
   packer_inv demo_packer_1 \<and>
   packer_frame demo_packer_1 \<and>
   packer_inv (Restart demo_packer_1) \<and>
   DoAddValue demo_codecs 3 (Slice [97, 98, 99]) 0 demo_packer_1 = (Inr True, demo_packer_3) \<and>
   packer_inv demo_packer_3 \<and>
   Finished demo_packer_3 \<and>
   varlen_write_pos demo_packer_3 = prefix_end demo_packer_3 \<and>
   Complete demo_codecs demo_packer_3 = (Inr (result demo_packer_3), demo_packer_3)"
proof -
  note T0 = packer_invariant_maintained
    [where C = demo_codecs and version = 1 and sp = demo_packing and limit = 0
       and control_slice = "[]" and junk = "[170, 170, 170, 170, 170, 170, 170, 170]"
       and p = demo_packer and column_id = 1 and v = "Slice [1, 2, 3, 4]" and tail_size = 0]
  note T1 = packer_invariant_maintained
    [where C = demo_codecs and p = demo_packer_1 and column_id = 3
       and v = "Slice [97, 98, 99]" and tail_size = 0]
  note T3 = packer_invariant_maintained [where C = demo_codecs and p = demo_packer_3]
  have i0: "packer_inv demo_packer"
    using T0 by (simp add: demo_packer_def)
  have i1: "packer_inv demo_packer_1"
    using T0 i0 demo_step_1 by blast
  have f1: "packer_frame demo_packer_1"
    using T1 i1 by blast
  have r1: "packer_inv (Restart demo_packer_1)"
    using T1 f1 by blast
  have i3: "packer_inv demo_packer_3"
    using T1 i1 demo_step_3 by blast
  have fin: "Finished demo_packer_3"
    by (simp add: Finished_def demo_packer_3_def demo_packing_simps)
  have c3: "varlen_write_pos demo_packer_3 = prefix_end demo_packer_3 \<and>
            Complete demo_codecs demo_packer_3 = (Inr (result demo_packer_3), demo_packer_3)"
    using T3 i3 fin by blast
  from i0 i1 f1 r1 i3 fin c3 demo_step_1 demo_step_3 show ?thesis by blast
qed

end
